theory Spec2Isabelle
  imports Main "HOL-Library.Word"
begin

unbundle bit_operations_syntax

section \<open>Values shared by the back end\<close>

text \<open>
  A \<open>Buffer\<close> is represented by its bytes and \<open>Date.now()\<close> by an integer that each
  operation receives as an argument, one argument for every call the source makes. The
  strings of the ledger, the contracts and the chat are kept as the bytes of their UTF-8
  encoding; the string handed to \<open>encrypt\<close> is kept as its UTF-16 code units, since that
  is where the encoding is computed.
\<close>

type_synonym byte = "8 word"
type_synonym unit16 = "16 word"
type_synonym addr = nat

text \<open>The objects handed to \<open>JSON.stringify\<close>. A pending promise has no enumerable
  property of its own, so it is serialised as the empty object.\<close>

datatype json =
    JNumber int
  | JString string
  | JArray "json list"
  | JObject "(string \<times> json) list"

text \<open>\<open>Buffer.toString('hex')\<close>: two lower-case digits for every byte.\<close>

definition hexdigit :: "nat \<Rightarrow> char" where
  "hexdigit n = (''0123456789abcdef'') ! (n mod 16)"

fun toString_hex :: "byte list \<Rightarrow> string" where
  "toString_hex [] = []"
| "toString_hex (b # bs) =
     hexdigit (unat b div 16) # hexdigit (unat b mod 16) # toString_hex bs"

text \<open>What a promise settles to, and \<open>promise.then(f)\<close> for an \<open>f\<close> that does not throw.\<close>

datatype 'a promise = Resolved 'a | Rejected

fun promise_then :: "('a \<Rightarrow> 'b) \<Rightarrow> 'a promise \<Rightarrow> 'b promise" where
  "promise_then f (Resolved v) = Resolved (f v)"
| "promise_then f Rejected = Rejected"

text \<open>The two kinds of byte array a key derivation can resolve to. \<open>x.toString('hex')\<close> is
  the hexadecimal rendering on a \<open>Buffer\<close>; on a plain \<open>Uint8Array\<close> it is
  \<open>Array.prototype.join\<close>, which ignores its argument and gives the decimal values
  separated by commas.\<close>

datatype bytes_object = Buffer "byte list" | Uint8Array "byte list"

fun decimal :: "nat \<Rightarrow> string" where
  "decimal n = (if n < 10 then [hexdigit n] else decimal (n div 10) @ [hexdigit (n mod 10)])"

declare decimal.simps [simp del]

fun commas :: "string list \<Rightarrow> string" where
  "commas [] = []"
| "commas [x] = x"
| "commas (x # y # zs) = x @ '','' @ commas (y # zs)"

fun toString_arg_hex :: "bytes_object \<Rightarrow> string" where
  "toString_arg_hex (Buffer bs) = toString_hex bs"
| "toString_arg_hex (Uint8Array bs) = commas (map (\<lambda>b. decimal (unat b)) bs)"

text \<open>A chat frame after \<open>JSON.parse\<close>, by the three properties the handler reads.\<close>

record data =
  msg_type :: string
  nickname :: string
  content :: string

text \<open>What an operation can throw. \<open>NotFound\<close> is the error the specification names for
  an unknown contract id.\<close>

datatype error = TypeError | SyntaxError | SodiumError | NotFound

text \<open>The libraries the back end calls and does not define. \<open>scrypt\<close> is the value that
  \<open>require('scrypt-js')\<close> yields, called with six arguments: the call either throws
  (\<open>Inl\<close>), as it does when that value is not a function or insists on a callback, or
  returns a promise. \<open>JSON.parse\<close> is \<open>None\<close> where it throws a \<open>SyntaxError\<close>.\<close>

record lib =
  scrypt :: "string \<Rightarrow> string \<Rightarrow> nat \<Rightarrow> nat \<Rightarrow> nat \<Rightarrow> nat \<Rightarrow> error + bytes_object promise"
  JSON_stringify :: "json \<Rightarrow> string"
  JSON_parse :: "string \<Rightarrow> data option"

section \<open>blockchain.js\<close>

record transaction =
  sender :: string
  receiver :: string
  amount :: int

text \<open>The value of a \<open>hash\<close> or \<open>previousHash\<close> field: the string \<open>'0'\<close> of the genesis
  block, or the promise returned by \<open>calculateHash\<close>, represented by what it settles to.\<close>

datatype hashval = Str string | Promise "string promise"

text \<open>A block holds a reference to its transaction array, not a copy of it.\<close>

record block =
  index :: nat
  previousHash :: hashval
  timestamp :: int
  transactions :: addr
  hash :: hashval

text \<open>The ledger object: \<open>chain\<close>, the reference \<open>this.transactions\<close> (here \<open>pool\<close>) and
  the store of the transaction arrays allocated so far; an array's address is its
  position in \<open>arrays\<close>.\<close>

record Blockchain =
  chain :: "block list"
  pool :: addr
  arrays :: "transaction list list"

definition transaction_json :: "transaction \<Rightarrow> json" where
  "transaction_json t =
     JObject [(''sender'', JString (sender t)), (''receiver'', JString (receiver t)),
              (''amount'', JNumber (amount t))]"

fun hashval_json :: "hashval \<Rightarrow> json" where
  "hashval_json (Str s) = JString s"
| "hashval_json (Promise h) = JObject []"

text \<open>\<open>calculateHash\<close> throws what the call of \<open>scrypt\<close> throws; otherwise it returns the
  promise made by \<open>.then(hash => hash.toString('hex'))\<close>.\<close>

definition calculateHash ::
  "lib \<Rightarrow> nat \<Rightarrow> hashval \<Rightarrow> int \<Rightarrow> transaction list \<Rightarrow> error + hashval" where
  "calculateHash L idx prev ts txs =
     (case scrypt L
         (JSON_stringify L
           (JObject [(''index'', JNumber (int idx)), (''previousHash'', hashval_json prev),
                     (''timestamp'', JNumber ts),
                     (''transactions'', JArray (map transaction_json txs))]))
         ''salt'' 1024 8 1 32 of
        Inl e \<Rightarrow> Inl e
      | Inr p \<Rightarrow> Inr (Promise (promise_then toString_arg_hex p)))"

text \<open>\<open>genesisBlock\<close> reads the clock twice: \<open>now1\<close> is stored in the block, \<open>now2\<close> is
  hashed. The literal \<open>[]\<close> of the block is a new array. An exception of \<open>calculateHash\<close>
  leaves while the block literal is being built, before \<open>this.chain.push\<close>.\<close>

definition genesisBlock :: "lib \<Rightarrow> int \<Rightarrow> int \<Rightarrow> Blockchain \<Rightarrow> error + Blockchain" where
  "genesisBlock L now1 now2 bc =
     (case calculateHash L 0 (Str ''0'') now2 [] of
        Inl e \<Rightarrow> Inl e
      | Inr h \<Rightarrow>
          let a = length (arrays bc);
              b = \<lparr>index = 0, previousHash = Str ''0'', timestamp = now1, transactions = a,
                   hash = h\<rparr>
          in Inr (bc\<lparr>chain := chain bc @ [b], arrays := arrays bc @ [[]]\<rparr>))"

text \<open>The constructor: \<open>this.chain = []\<close>, \<open>this.transactions = []\<close>, \<open>this.genesisBlock()\<close>.
  When \<open>genesisBlock\<close> throws, so does \<open>new Blockchain()\<close>, and there is no ledger.\<close>

definition new_Blockchain :: "lib \<Rightarrow> int \<Rightarrow> int \<Rightarrow> error + Blockchain" where
  "new_Blockchain L now1 now2 =
     genesisBlock L now1 now2 \<lparr>chain = [], pool = 0, arrays = [[]]\<rparr>"

text \<open>\<open>createTransaction\<close> pushes onto the array \<open>this.transactions\<close> refers to.\<close>

definition createTransaction :: "string \<Rightarrow> string \<Rightarrow> int \<Rightarrow> Blockchain \<Rightarrow> Blockchain" where
  "createTransaction s r a bc =
     bc\<lparr>arrays := (arrays bc)[pool bc :=
           arrays bc ! pool bc @ [\<lparr>sender = s, receiver = r, amount = a\<rparr>]]\<rparr>"

text \<open>\<open>mineBlock\<close>: reading \<open>.hash\<close> of \<open>this.chain[this.chain.length - 1]\<close> throws a
  \<open>TypeError\<close> on an empty chain, and \<open>calculateHash\<close> may throw; both happen before
  \<open>this.chain.push\<close> and before the pool is rebound. The block keeps the pool's array;
  \<open>this.transactions = []\<close> rebinds the pool to a new one. The argument \<open>difficulty\<close> is
  not used.\<close>

definition mineBlock ::
  "lib \<Rightarrow> int \<Rightarrow> nat \<Rightarrow> Blockchain \<Rightarrow> error + (block \<times> Blockchain)" where
  "mineBlock L now difficulty bc =
     (if chain bc = [] then Inl TypeError
      else
        case calculateHash L (length (chain bc)) (hash (last (chain bc))) now
               (arrays bc ! pool bc) of
          Inl e \<Rightarrow> Inl e
        | Inr h \<Rightarrow>
            let b = \<lparr>index = length (chain bc), previousHash = hash (last (chain bc)),
                     timestamp = now, transactions = pool bc, hash = h\<rparr>
            in Inr (b, bc\<lparr>chain := chain bc @ [b], pool := length (arrays bc),
                           arrays := arrays bc @ [[]]\<rparr>))"

text \<open>A history of calls on the ledger, each with the clock reading it sees. A call that
  throws leaves the object as it was when the exception was raised.\<close>

datatype ledger_op = CreateTransaction string string int | MineBlock nat

fun ledger_step :: "lib \<Rightarrow> int \<times> ledger_op \<Rightarrow> Blockchain \<Rightarrow> Blockchain" where
  "ledger_step L (now, CreateTransaction s r a) bc = createTransaction s r a bc"
| "ledger_step L (now, MineBlock d) bc =
     (case mineBlock L now d bc of Inl e \<Rightarrow> bc | Inr (b, bc') \<Rightarrow> bc')"

definition ledger_run :: "lib \<Rightarrow> (int \<times> ledger_op) list \<Rightarrow> Blockchain \<Rightarrow> Blockchain" where
  "ledger_run L ops bc = fold (ledger_step L) ops bc"

text \<open>The content of the pending pool, and of a block's transaction array.\<close>

definition pending :: "Blockchain \<Rightarrow> transaction list" where
  "pending bc = arrays bc ! pool bc"

definition block_transactions :: "Blockchain \<Rightarrow> block \<Rightarrow> transaction list" where
  "block_transactions bc b = arrays bc ! transactions b"

definition submit_all :: "transaction list \<Rightarrow> Blockchain \<Rightarrow> Blockchain" where
  "submit_all txs bc = fold (\<lambda>t. createTransaction (sender t) (receiver t) (amount t)) txs bc"

section \<open>smartcontract.js\<close>

record contract =
  c_id :: nat
  partyA :: string
  partyB :: string
  condition :: int
  c_amount :: int
  c_timestamp :: int
  executed :: bool

record SmartContract =
  blockchain :: Blockchain
  contracts :: "contract list"

definition new_SmartContract :: "Blockchain \<Rightarrow> SmartContract" where
  "new_SmartContract bc = \<lparr>blockchain = bc, contracts = []\<rparr>"

definition createContract ::
  "int \<Rightarrow> string \<Rightarrow> string \<Rightarrow> int \<Rightarrow> int \<Rightarrow> SmartContract \<Rightarrow> contract \<times> SmartContract" where
  "createContract now a b cond amt s =
     (let c = \<lparr>c_id = length (contracts s), partyA = a, partyB = b, condition = cond,
                c_amount = amt, c_timestamp = now, executed = False\<rparr>
      in (c, s\<lparr>contracts := contracts s @ [c]\<rparr>))"

text \<open>\<open>this.contracts[id]\<close> is \<open>undefined\<close> outside the array.\<close>

definition contract_at :: "contract list \<Rightarrow> int \<Rightarrow> contract option" where
  "contract_at cs i = (if 0 \<le> i \<and> nat i < length cs then Some (cs ! nat i) else None)"

definition executeContract ::
  "int \<Rightarrow> int \<Rightarrow> SmartContract \<Rightarrow> (error + bool) \<times> SmartContract" where
  "executeContract now i s =
     (case contract_at (contracts s) i of
        None \<Rightarrow> (Inr False, s)
      | Some c \<Rightarrow>
          if executed c then (Inr False, s)
          else if now \<le> condition c then
            (Inr True,
             s\<lparr>blockchain := createTransaction (partyA c) (partyB c) (c_amount c) (blockchain s),
               contracts := (contracts s)[nat i := c\<lparr>executed := True\<rparr>]\<rparr>)
          else (Inr False, s))"

text \<open>A history of calls on the back end: the ledger is shared by the transfer route and
  the contract engine.\<close>

datatype op =
    Transfer string string int
  | Mine nat
  | CreateContract string string int int
  | ExecuteContract int

fun step :: "lib \<Rightarrow> int \<times> op \<Rightarrow> SmartContract \<Rightarrow> SmartContract" where
  "step L (now, Transfer s r a) st = st\<lparr>blockchain := createTransaction s r a (blockchain st)\<rparr>"
| "step L (now, Mine d) st = st\<lparr>blockchain := ledger_step L (now, MineBlock d) (blockchain st)\<rparr>"
| "step L (now, CreateContract a b cond amt) st = snd (createContract now a b cond amt st)"
| "step L (now, ExecuteContract i) st = snd (executeContract now i st)"

definition run :: "lib \<Rightarrow> (int \<times> op) list \<Rightarrow> SmartContract \<Rightarrow> SmartContract" where
  "run L ops st = fold (step L) ops st"

text \<open>The start of server.js: \<open>new Blockchain()\<close>, then \<open>new SmartContract(blockchain)\<close>.\<close>

definition init :: "lib \<Rightarrow> int \<Rightarrow> int \<Rightarrow> error + SmartContract" where
  "init L now1 now2 =
     (case new_Blockchain L now1 now2 of
        Inl e \<Rightarrow> Inl e
      | Inr bc \<Rightarrow> Inr (new_SmartContract bc))"

text \<open>The ids \<open>createContract\<close> hands out along a history, in call order.\<close>

fun assigned_ids :: "lib \<Rightarrow> (int \<times> op) list \<Rightarrow> SmartContract \<Rightarrow> nat list" where
  "assigned_ids L [] st = []"
| "assigned_ids L ((now, CreateContract a b cond amt) # rest) st =
     c_id (fst (createContract now a b cond amt st))
       # assigned_ids L rest (step L (now, CreateContract a b cond amt) st)"
| "assigned_ids L ((now, x) # rest) st = assigned_ids L rest (step L (now, x) st)"

section \<open>chat.js\<close>

datatype readyState = CONNECTING | OPEN | CLOSING | CLOSED

text \<open>A WebSocket: its identity \<open>conn\<close> (what \<open>===\<close> compares), its state, and the frames
  handed to \<open>send\<close> so far.\<close>

record socket =
  conn :: nat
  readyState :: readyState
  sent :: "string list"

text \<open>\<open>wss\<close> is the set \<open>wss.clients\<close> of the server, \<open>users\<close> the \<open>Map\<close> from nickname to
  socket, both in insertion order.\<close>

record Chat =
  wss :: "socket list"
  users :: "(string \<times> nat) list"

definition send :: "string \<Rightarrow> socket \<Rightarrow> socket" where
  "send frame client = client\<lparr>sent := sent client @ [frame]\<rparr>"

definition broadcast :: "lib \<Rightarrow> string \<Rightarrow> Chat \<Rightarrow> Chat" where
  "broadcast L message st =
     st\<lparr>wss := map (\<lambda>client.
            if readyState client = OPEN
            then send (JSON_stringify L
                   (JObject [(''type'', JString ''message''), (''content'', JString message)]))
                   client
            else client) (wss st)\<rparr>"

text \<open>\<open>Map.prototype.set\<close>: an existing key keeps its place.\<close>

fun map_set :: "string \<Rightarrow> nat \<Rightarrow> (string \<times> nat) list \<Rightarrow> (string \<times> nat) list" where
  "map_set k v [] = [(k, v)]"
| "map_set k v ((k', v') # kvs) =
     (if k' = k then (k, v) # kvs else (k', v') # map_set k v kvs)"

definition map_delete :: "string \<Rightarrow> (string \<times> nat) list \<Rightarrow> (string \<times> nat) list" where
  "map_delete k kvs = filter (\<lambda>kv. fst kv \<noteq> k) kvs"

text \<open>The two notices; the accented letter is the two bytes of its UTF-8 encoding.\<close>

definition joined :: "string \<Rightarrow> string" where
  "joined n = n @ '' si '' @ [CHR 0xC3, CHR 0xA8] @ '' connesso!''"

definition left :: "string \<Rightarrow> string" where
  "left n = n @ '' si '' @ [CHR 0xC3, CHR 0xA8] @ '' disconnesso!''"

text \<open>The \<open>message\<close> handler of the socket \<open>ws\<close>.\<close>

definition on_message :: "lib \<Rightarrow> nat \<Rightarrow> string \<Rightarrow> Chat \<Rightarrow> error + Chat" where
  "on_message L ws message st =
     (case JSON_parse L message of
        None \<Rightarrow> Inl SyntaxError
      | Some d \<Rightarrow>
          if msg_type d = ''login''
          then Inr (broadcast L (joined (nickname d))
                     (st\<lparr>users := map_set (nickname d) ws (users st)\<rparr>))
          else if msg_type d = ''message''
          then Inr (broadcast L (nickname d @ '': '' @ content d) st)
          else Inr st)"

text \<open>The \<open>close\<close> handler: \<open>users.forEach\<close> visits the entries in order; deleting the entry
  being visited does not disturb the rest of the visit.\<close>

fun close_each :: "lib \<Rightarrow> nat \<Rightarrow> (string \<times> nat) list \<Rightarrow> Chat \<Rightarrow> Chat" where
  "close_each L ws [] st = st"
| "close_each L ws ((n, client) # rest) st =
     (if client = ws
      then close_each L ws rest (broadcast L (left n) (st\<lparr>users := map_delete n (users st)\<rparr>))
      else close_each L ws rest st)"

definition on_close :: "lib \<Rightarrow> nat \<Rightarrow> Chat \<Rightarrow> Chat" where
  "on_close L ws st = close_each L ws (users st) st"

section \<open>crypto.js\<close>

text \<open>\<open>Buffer.from(s, 'hex')\<close> decodes pairs of hexadecimal digits of either case and stops
  at the first pair that is not one.\<close>

definition hexval :: "char \<Rightarrow> nat option" where
  "hexval c =
     (let n = (of_char c :: nat)
      in if 48 \<le> n \<and> n \<le> 57 then Some (n - 48)
         else if 97 \<le> n \<and> n \<le> 102 then Some (n - 87)
         else if 65 \<le> n \<and> n \<le> 70 then Some (n - 55)
         else None)"

fun Buffer_from_hex :: "string \<Rightarrow> byte list" where
  "Buffer_from_hex (a # b # cs) =
     (case (hexval a, hexval b) of
        (Some h, Some l) \<Rightarrow> word_of_nat (16 * h + l) # Buffer_from_hex cs
      | _ \<Rightarrow> [])"
| "Buffer_from_hex _ = []"

text \<open>libsodium turns the string it is given into bytes with \<open>TextEncoder\<close>: the code
  units are read as scalar values, a surrogate that is not part of a pair is read as
  U+FFFD, and each scalar value is written in UTF-8.\<close>

definition is_high :: "unit16 \<Rightarrow> bool" where
  "is_high c \<longleftrightarrow> 0xD800 \<le> unat c \<and> unat c \<le> 0xDBFF"

definition is_low :: "unit16 \<Rightarrow> bool" where
  "is_low c \<longleftrightarrow> 0xDC00 \<le> unat c \<and> unat c \<le> 0xDFFF"

fun scalars :: "unit16 list \<Rightarrow> nat list" where
  "scalars [] = []"
| "scalars [c] = [if is_high c \<or> is_low c then 0xFFFD else unat c]"
| "scalars (c # d # cs) =
     (if is_high c \<and> is_low d
      then (0x10000 + (unat c - 0xD800) * 0x400 + (unat d - 0xDC00)) # scalars cs
      else (if is_high c \<or> is_low c then 0xFFFD else unat c) # scalars (d # cs))"

definition utf8 :: "nat \<Rightarrow> nat list" where
  "utf8 n =
     (if n < 0x80 then [n]
      else if n < 0x800 then [0xC0 + n div 64, 0x80 + n mod 64]
      else if n < 0x10000 then [0xE0 + n div 4096, 0x80 + n div 64 mod 64, 0x80 + n mod 64]
      else [0xF0 + n div 262144, 0x80 + n div 4096 mod 64, 0x80 + n div 64 mod 64,
            0x80 + n mod 64])"

definition from_string :: "unit16 list \<Rightarrow> byte list" where
  "from_string s = map word_of_nat (concat (map utf8 (scalars s)))"

text \<open>\<open>Buffer.toString()\<close> decodes UTF-8 and puts U+FFFD for every ill-formed sequence. The
  decoder is the one of the Encoding Standard: the state is the code point so far, the
  bytes needed and seen, and the bounds of the next byte; a byte outside the bounds ends
  the sequence with U+FFFD and is read again as the start of the next one.\<close>

function utf8_decode :: "nat \<Rightarrow> nat \<Rightarrow> nat \<Rightarrow> nat \<Rightarrow> nat \<Rightarrow> nat list \<Rightarrow> nat list" where
  "utf8_decode cp needed seen lower upper [] = (if needed = 0 then [] else [0xFFFD])"
| "utf8_decode cp needed seen lower upper (b # bs) =
     (if needed = 0 then
        if b \<le> 0x7F then b # utf8_decode 0 0 0 0x80 0xBF bs
        else if 0xC2 \<le> b \<and> b \<le> 0xDF then utf8_decode (b mod 32) 1 0 0x80 0xBF bs
        else if 0xE0 \<le> b \<and> b \<le> 0xEF
          then utf8_decode (b mod 16) 2 0 (if b = 0xE0 then 0xA0 else 0x80)
                 (if b = 0xED then 0x9F else 0xBF) bs
        else if 0xF0 \<le> b \<and> b \<le> 0xF4
          then utf8_decode (b mod 8) 3 0 (if b = 0xF0 then 0x90 else 0x80)
                 (if b = 0xF4 then 0x8F else 0xBF) bs
        else 0xFFFD # utf8_decode 0 0 0 0x80 0xBF bs
      else if b < lower \<or> upper < b then 0xFFFD # utf8_decode 0 0 0 0x80 0xBF (b # bs)
      else if Suc seen = needed then (cp * 64 + b mod 64) # utf8_decode 0 0 0 0x80 0xBF bs
      else utf8_decode (cp * 64 + b mod 64) needed (Suc seen) 0x80 0xBF bs)"
  by pat_completeness auto
termination
  by (relation "measure (\<lambda>(cp, needed, seen, lower, upper, bs).
        2 * length bs + (if needed = 0 then 0 else 1))") auto

definition utf16 :: "nat \<Rightarrow> unit16 list" where
  "utf16 n =
     (if n < 0x10000 then [word_of_nat n]
      else [word_of_nat (0xD800 + (n - 0x10000) div 0x400),
            word_of_nat (0xDC00 + (n - 0x10000) mod 0x400)])"

definition toString :: "byte list \<Rightarrow> unit16 list" where
  "toString bs = concat (map utf16 (utf8_decode 0 0 0 0x80 0xBF (map unat bs)))"

text \<open>\<open>String.prototype.isWellFormed\<close>: no surrogate outside a pair.\<close>

fun isWellFormed :: "unit16 list \<Rightarrow> bool" where
  "isWellFormed [] = True"
| "isWellFormed [c] = (\<not> is_high c \<and> \<not> is_low c)"
| "isWellFormed (c # d # cs) =
     (if is_high c then is_low d \<and> isWellFormed cs
      else \<not> is_low c \<and> isWellFormed (d # cs))"

text \<open>libsodium, which the back end calls and does not define: the secret box, whose
  opening is \<open>None\<close> where it throws, and the random generator, a sequence of bytes read
  from the front.\<close>

record sodium =
  crypto_secretbox_easy :: "byte list \<Rightarrow> byte list \<Rightarrow> byte list \<Rightarrow> byte list"
  crypto_secretbox_open_easy :: "byte list \<Rightarrow> byte list \<Rightarrow> byte list \<Rightarrow> byte list option"

definition crypto_secretbox_KEYBYTES :: nat where
  "crypto_secretbox_KEYBYTES = 32"

definition crypto_secretbox_NONCEBYTES :: nat where
  "crypto_secretbox_NONCEBYTES = 24"

type_synonym entropy = "nat \<Rightarrow> byte"

definition randombytes_buf :: "nat \<Rightarrow> entropy \<Rightarrow> byte list \<times> entropy" where
  "randombytes_buf n rnd = (map rnd [0..<n], \<lambda>i. rnd (i + n))"

record envelope =
  ciphertext :: string
  nonce :: string
  key :: string

definition encrypt :: "sodium \<Rightarrow> entropy \<Rightarrow> unit16 list \<Rightarrow> envelope \<times> entropy" where
  "encrypt S rnd d =
     (let (k, rnd1) = randombytes_buf crypto_secretbox_KEYBYTES rnd;
          (n, rnd2) = randombytes_buf crypto_secretbox_NONCEBYTES rnd1;
          c = crypto_secretbox_easy S (from_string d) n k
      in (\<lparr>ciphertext = toString_hex c, nonce = toString_hex n, key = toString_hex k\<rparr>, rnd2))"

definition decrypt :: "sodium \<Rightarrow> string \<Rightarrow> string \<Rightarrow> string \<Rightarrow> error + unit16 list" where
  "decrypt S c n k =
     (case crypto_secretbox_open_easy S (Buffer_from_hex c) (Buffer_from_hex n) (Buffer_from_hex k) of
        None \<Rightarrow> Inl SodiumError
      | Some decrypted \<Rightarrow> Inr (toString decrypted))"


section \<open>Stand-ins and invariants\<close>

text \<open>Stand-ins for the libraries, to run the model on examples: a printer that escapes
  nothing and a key derivation that returns, and resolves to its password.\<close>

fun show_json :: "json \<Rightarrow> string" where
  "show_json (JNumber i) = (if i < 0 then CHR ''-'' # decimal (nat (- i)) else decimal (nat i))"
| "show_json (JString s) = CHR 0x22 # s @ [CHR 0x22]"
| "show_json (JArray js) = ''['' @ commas (map show_json js) @ '']''"
| "show_json (JObject kvs) =
     ''{'' @ commas (map (\<lambda>kv. CHR 0x22 # fst kv @ [CHR 0x22] @ '':'' @ show_json (snd kv)) kvs)
       @ ''}''"

definition lib0 :: lib where
  "lib0 = \<lparr>scrypt = (\<lambda>password salt N r p dkLen.
              Inr (Resolved (Buffer (map (\<lambda>c. word_of_nat (of_char c)) password)))),
           JSON_stringify = show_json, JSON_parse = (\<lambda>message. None)\<rparr>"

text \<open>With these stand-ins: the hash of a block, the ledger that \<open>new Blockchain()\<close> yields
  at the clock readings 1000 and 1001, and the back end started on it.\<close>

definition seal0 :: "nat \<Rightarrow> hashval \<Rightarrow> int \<Rightarrow> transaction list \<Rightarrow> hashval" where
  "seal0 idx prev ts txs =
     (case calculateHash lib0 idx prev ts txs of Inr h \<Rightarrow> h | Inl e \<Rightarrow> Str [])"

definition ledger0 :: Blockchain where
  "ledger0 =
     \<lparr>chain = [\<lparr>index = 0, previousHash = Str ''0'', timestamp = 1000, transactions = 1,
                hash = seal0 0 (Str ''0'') 1001 []\<rparr>],
      pool = 0, arrays = [[], []]\<rparr>"

definition start0 :: SmartContract where
  "start0 = new_SmartContract ledger0"

text \<open>A stand-in for \<open>JSON.parse\<close> that reads frames written \<open>type|nickname|content\<close>, and
  one for the secret box that masks every byte with the first byte of the key.\<close>

fun split_bar :: "string \<Rightarrow> string \<Rightarrow> string list" where
  "split_bar acc [] = [rev acc]"
| "split_bar acc (c # cs) = (if c = CHR ''|'' then rev acc # split_bar [] cs else split_bar (c # acc) cs)"

definition parse0 :: "string \<Rightarrow> data option" where
  "parse0 message =
     (case split_bar [] message of
        [t, n, c] \<Rightarrow> Some \<lparr>msg_type = t, nickname = n, content = c\<rparr>
      | _ \<Rightarrow> None)"

definition lib1 :: lib where
  "lib1 = lib0\<lparr>JSON_parse := parse0\<rparr>"

definition sodium0 :: sodium where
  "sodium0 = \<lparr>crypto_secretbox_easy = (\<lambda>m n k. map (\<lambda>b. b XOR hd k) m),
      crypto_secretbox_open_easy = (\<lambda>c n k. Some (map (\<lambda>b. b XOR hd k) c))\<rparr>"

definition entropy0 :: entropy where
  "entropy0 = (\<lambda>i. word_of_nat (7 * i + 3))"

text \<open>What every reachable ledger satisfies: the chain has its genesis block, the pool
  and the blocks refer to allocated arrays, and no block shares its array with the pool.\<close>

definition ledger_inv :: "Blockchain \<Rightarrow> bool" where
  "ledger_inv bc \<longleftrightarrow>
     chain bc \<noteq> [] \<and> pool bc < length (arrays bc) \<and>
     (\<forall>b \<in> set (chain bc). transactions b < length (arrays bc) \<and> transactions b \<noteq> pool bc)"

definition linked :: "block list \<Rightarrow> bool" where
  "linked bs \<longleftrightarrow>
     (\<forall>i. 0 < i \<and> i < length bs \<longrightarrow> previousHash (bs ! i) = hash (bs ! (i - 1)))"

text \<open>Every block after the first carries the digest of its own stored fields.\<close>

definition sealed :: "lib \<Rightarrow> Blockchain \<Rightarrow> bool" where
  "sealed L bc \<longleftrightarrow>
     (\<forall>i. 0 < i \<and> i < length (chain bc) \<longrightarrow>
        calculateHash L (index (chain bc ! i)) (previousHash (chain bc ! i))
          (timestamp (chain bc ! i)) (block_transactions bc (chain bc ! i))
        = Inr (hash (chain bc ! i)))"

text \<open>What every back end satisfies that is reached from \<open>new SmartContract(blockchain)\<close>:
  the id of a contract is its place in the list. And a contract that can no longer be
  executed at time \<open>now\<close> or later.\<close>

definition ids_inv :: "SmartContract \<Rightarrow> bool" where
  "ids_inv st \<longleftrightarrow> (\<forall>i < length (contracts st). c_id (contracts st ! i) = i)"

definition dead :: "int \<Rightarrow> int \<Rightarrow> SmartContract \<Rightarrow> bool" where
  "dead now i st =
     (case contract_at (contracts st) i of None \<Rightarrow> False
      | Some c \<Rightarrow> executed c \<or> condition c < now)"

text \<open>The Unicode scalar values.\<close>

definition scalar :: "nat \<Rightarrow> bool" where
  "scalar n \<longleftrightarrow> n < 0x110000 \<and> \<not> (0xD800 \<le> n \<and> n \<le> 0xDFFF)"


section \<open>The ledger\<close>

text \<open>The equations that run the model on an example.\<close>

lemma calculateHash_lib0: "calculateHash lib0 idx prev ts txs = Inr (seal0 idx prev ts txs)"
  by (simp add: seal0_def calculateHash_def lib0_def)

lemmas ev = ledger_run_def new_Blockchain_def genesisBlock_def createTransaction_def mineBlock_def Let_def block_transactions_def pending_def calculateHash_lib0 ledger0_def

lemma new_Blockchain_lib0: "new_Blockchain lib0 1000 1001 = Inr ledger0"
  by (simp add: ev)

text \<open>What the constructor and \<open>mineBlock\<close> give when they return.\<close>

lemma new_Blockchain_Inr:
  "new_Blockchain L t1 t2 = Inr bc \<longleftrightarrow>
     (\<exists>h. calculateHash L 0 (Str ''0'') t2 [] = Inr h \<and>
          bc = \<lparr>chain = [\<lparr>index = 0, previousHash = Str ''0'', timestamp = t1,
                          transactions = 1, hash = h\<rparr>],
                pool = 0, arrays = [[], []]\<rparr>)"
  by (auto simp: new_Blockchain_def genesisBlock_def Let_def split: sum.splits)

lemma mineBlock_Inr:
  "mineBlock L now d bc = Inr (b, bc') \<longleftrightarrow>
     chain bc \<noteq> [] \<and>
     (\<exists>h. calculateHash L (length (chain bc)) (hash (last (chain bc))) now (arrays bc ! pool bc)
            = Inr h \<and>
          b = \<lparr>index = length (chain bc), previousHash = hash (last (chain bc)),
                timestamp = now, transactions = pool bc, hash = h\<rparr> \<and>
          bc' = bc\<lparr>chain := chain bc @ [b], pool := length (arrays bc),
                    arrays := arrays bc @ [[]]\<rparr>)"
  by (auto simp: mineBlock_def Let_def split: sum.splits)

lemma ledger_inv_new: "new_Blockchain L t1 t2 = Inr bc \<Longrightarrow> ledger_inv bc"
  by (auto simp: new_Blockchain_Inr ledger_inv_def)

lemma ledger_inv_createTransaction:
  "ledger_inv bc \<Longrightarrow> ledger_inv (createTransaction s r a bc)"
  by (simp add: ledger_inv_def createTransaction_def)

lemma ledger_inv_mineBlock:
  "ledger_inv bc \<Longrightarrow> mineBlock L now d bc = Inr (b, bc') \<Longrightarrow> ledger_inv bc'"
  by (fastforce simp: ledger_inv_def mineBlock_Inr)

lemma ledger_inv_step: "ledger_inv bc \<Longrightarrow> ledger_inv (ledger_step L op bc)"
proof (cases op)
  case (Pair now x)
  assume inv: "ledger_inv bc"
  show ?thesis
  proof (cases x)
    case (CreateTransaction s r a)
    with Pair inv show ?thesis by (simp add: ledger_inv_createTransaction)
  next
    case (MineBlock d)
    with Pair inv show ?thesis
      by (auto split: sum.splits dest: ledger_inv_mineBlock)
  qed
qed

lemma pool_allocated_step:
  "pool bc < length (arrays bc) \<Longrightarrow>
   pool (ledger_step L op bc) < length (arrays (ledger_step L op bc))"
proof (cases op)
  case (Pair now x)
  assume p: "pool bc < length (arrays bc)"
  show ?thesis
  proof (cases x)
    case (CreateTransaction s r a)
    with Pair p show ?thesis by (simp add: createTransaction_def)
  next
    case (MineBlock d)
    with Pair p show ?thesis
      by (auto simp: mineBlock_Inr split: sum.splits)
  qed
qed

lemma ledger_inv_run: "ledger_inv bc \<Longrightarrow> ledger_inv (ledger_run L ops bc)"
  unfolding ledger_run_def
  by (induction ops arbitrary: bc) (simp_all add: ledger_inv_step)

lemma step_chain_extends: "\<exists>bs. chain (ledger_step L op bc) = chain bc @ bs"
proof (cases op)
  case (Pair now x)
  show ?thesis
  proof (cases x)
    case (CreateTransaction s r a)
    with Pair show ?thesis by (simp add: createTransaction_def)
  next
    case (MineBlock d)
    with Pair show ?thesis
      by (auto simp: mineBlock_Inr split: sum.splits)
  qed
qed

lemma run_chain_extends: "\<exists>bs. chain (ledger_run L ops bc) = chain bc @ bs"
  unfolding ledger_run_def
proof (induction ops arbitrary: bc)
  case Nil
  show ?case by simp
next
  case (Cons op ops)
  obtain bs where a: "chain (ledger_step L op bc) = chain bc @ bs"
    using step_chain_extends by blast
  obtain cs where "chain (fold (ledger_step L) ops (ledger_step L op bc)) = chain (ledger_step L op bc) @ cs"
    using Cons.IH by blast
  with a show ?case by simp
qed

lemma step_block_kept:
  "ledger_inv bc \<Longrightarrow> b \<in> set (chain bc) \<Longrightarrow>
   block_transactions (ledger_step L op bc) b = block_transactions bc b"
proof (cases op)
  case (Pair now x)
  assume inv: "ledger_inv bc" and b: "b \<in> set (chain bc)"
  then have ne: "transactions b \<noteq> pool bc" and lt: "transactions b < length (arrays bc)"
    by (auto simp: ledger_inv_def)
  show ?thesis
  proof (cases x)
    case (CreateTransaction s r a)
    with Pair ne show ?thesis
      by (simp add: createTransaction_def block_transactions_def)
  next
    case (MineBlock d)
    with Pair lt show ?thesis
      by (auto simp: mineBlock_Inr block_transactions_def nth_append split: sum.splits)
  qed
qed

lemma run_block_kept:
  "ledger_inv bc \<Longrightarrow> b \<in> set (chain bc) \<Longrightarrow>
   block_transactions (ledger_run L ops bc) b = block_transactions bc b"
  unfolding ledger_run_def
proof (induction ops arbitrary: bc)
  case Nil
  show ?case by simp
next
  case (Cons op ops)
  obtain bs where a: "chain (ledger_step L op bc) = chain bc @ bs"
    using step_chain_extends by blast
  with Cons.prems have "b \<in> set (chain (ledger_step L op bc))" by simp
  with Cons.prems have "block_transactions (fold (ledger_step L) ops (ledger_step L op bc)) b
      = block_transactions (ledger_step L op bc) b"
    by (simp add: Cons.IH ledger_inv_step)
  with Cons.prems show ?case by (simp add: step_block_kept)
qed

lemma linked_snoc:
  "linked bs \<Longrightarrow> bs \<noteq> [] \<Longrightarrow> previousHash b = hash (last bs) \<Longrightarrow> linked (bs @ [b])"
  unfolding linked_def
  by (auto simp: nth_append last_conv_nth less_Suc_eq)

lemma linked_step: "linked (chain bc) \<Longrightarrow> linked (chain (ledger_step L op bc))"
proof (cases op)
  case (Pair now x)
  assume l: "linked (chain bc)"
  show ?thesis
  proof (cases x)
    case (CreateTransaction s r a)
    with Pair l show ?thesis by (simp add: createTransaction_def)
  next
    case (MineBlock d)
    with Pair l show ?thesis
      by (auto simp: mineBlock_Inr linked_snoc split: sum.splits)
  qed
qed

lemma linked_run: "linked (chain bc) \<Longrightarrow> linked (chain (ledger_run L ops bc))"
  unfolding ledger_run_def
  by (induction ops arbitrary: bc) (simp_all add: linked_step)

lemma pool_submit_all [simp]: "pool (submit_all txs bc) = pool bc"
  unfolding submit_all_def
  by (induction txs arbitrary: bc) (simp_all add: createTransaction_def)

lemma chain_submit_all [simp]: "chain (submit_all txs bc) = chain bc"
  unfolding submit_all_def
  by (induction txs arbitrary: bc) (simp_all add: createTransaction_def)

lemma length_arrays_submit_all [simp]: "length (arrays (submit_all txs bc)) = length (arrays bc)"
  unfolding submit_all_def
  by (induction txs arbitrary: bc) (simp_all add: createTransaction_def)

lemma pending_createTransaction:
  "pool bc < length (arrays bc) \<Longrightarrow>
   pending (createTransaction s r a bc) = pending bc @ [\<lparr>sender = s, receiver = r, amount = a\<rparr>]"
  by (simp add: pending_def createTransaction_def)

lemma pending_submit_all:
  "pool bc < length (arrays bc) \<Longrightarrow> pending (submit_all txs bc) = pending bc @ txs"
  unfolding submit_all_def
proof (induction txs arbitrary: bc)
  case Nil
  show ?case by simp
next
  case (Cons t txs)
  let ?bc = "createTransaction (sender t) (receiver t) (amount t) bc"
  have "pool ?bc < length (arrays ?bc)"
    using Cons.prems by (simp add: createTransaction_def)
  then have "pending (fold (\<lambda>t. createTransaction (sender t) (receiver t) (amount t)) txs ?bc)
      = pending ?bc @ txs"
    by (rule Cons.IH)
  with Cons.prems show ?case by (simp add: pending_createTransaction)
qed

lemma mineBlock_result:
  assumes "mineBlock L now d bc = Inr (b, bc')" and "pool bc < length (arrays bc)"
  shows "chain bc' = chain bc @ [b]" "block_transactions bc' b = pending bc" "pending bc' = []"
    "index b = length (chain bc)" "previousHash b = hash (last (chain bc))" "timestamp b = now"
    "calculateHash L (index b) (previousHash b) (timestamp b) (block_transactions bc' b)
       = Inr (hash b)"
  using assms
  by (auto simp: mineBlock_Inr block_transactions_def pending_def nth_append)

lemma mineBlock_returns:
  assumes "chain bc \<noteq> []"
    and "calculateHash L (length (chain bc)) (hash (last (chain bc))) now (pending bc) = Inr h"
  shows "\<exists>b bc'. mineBlock L now d bc = Inr (b, bc')"
  using assms by (simp add: mineBlock_def Let_def pending_def)

text \<open>
  C1. When the constructor returns a ledger, then in every ledger reached from it by a
  history of \<open>createTransaction\<close> and \<open>mineBlock\<close> calls the chain is not empty, its first
  block has \<open>previousHash = '0'\<close>, every later block has the \<open>hash\<close> of its predecessor as
  \<open>previousHash\<close>, and whatever calls follow, the blocks of the chain stay where they are,
  field by field, and so does the content of the transaction array of each. A call that
  throws changes nothing.
\<close>

theorem chain_linked_append_only:
  assumes "new_Blockchain L t1 t2 = Inr bc0"
  shows "let bc = ledger_run L ops bc0; bc' = ledger_run L ops' bc in
     chain bc \<noteq> [] \<and>
     previousHash (chain bc ! 0) = Str ''0'' \<and>
     (\<forall>i. 0 < i \<and> i < length (chain bc) \<longrightarrow>
          previousHash (chain bc ! i) = hash (chain bc ! (i - 1))) \<and>
     take (length (chain bc)) (chain bc') = chain bc \<and>
     (\<forall>b \<in> set (chain bc). block_transactions bc' b = block_transactions bc b)"
proof -
  define bc where "bc = ledger_run L ops bc0"
  define bc' where "bc' = ledger_run L ops' bc"
  have inv: "ledger_inv bc"
    unfolding bc_def by (rule ledger_inv_run [OF ledger_inv_new [OF assms]])
  obtain bs where bs: "chain bc = chain bc0 @ bs"
    unfolding bc_def using run_chain_extends by blast
  have g0: "chain bc0 \<noteq> []" "previousHash (chain bc0 ! 0) = Str ''0''" "linked (chain bc0)"
    using assms by (auto simp: new_Blockchain_Inr linked_def)
  have 1: "chain bc \<noteq> []" using inv by (simp add: ledger_inv_def)
  have 2: "previousHash (chain bc ! 0) = Str ''0''"
    using g0 bs by (simp add: nth_append)
  have "linked (chain bc)"
    unfolding bc_def using g0(3) by (rule linked_run)
  then have 3: "\<forall>i. 0 < i \<and> i < length (chain bc) \<longrightarrow>
      previousHash (chain bc ! i) = hash (chain bc ! (i - 1))"
    by (simp add: linked_def)
  obtain cs where "chain bc' = chain bc @ cs"
    unfolding bc'_def using run_chain_extends by blast
  then have 4: "take (length (chain bc)) (chain bc') = chain bc" by simp
  have 5: "\<forall>b \<in> set (chain bc). block_transactions bc' b = block_transactions bc b"
    unfolding bc'_def using inv by (simp add: run_block_kept)
  from 1 2 3 4 5 show ?thesis
    unfolding Let_def bc'_def bc_def by blast
qed

theorem chain_linked_append_only_witness:
  "new_Blockchain lib0 1000 1001 = Inr ledger0 \<and>
   (let bc = ledger_run lib0 [(5, CreateTransaction ''a'' ''b'' 3), (6, MineBlock 0)] ledger0;
        bc' = ledger_run lib0 [(7, CreateTransaction ''c'' ''d'' 4), (8, MineBlock 0)] bc in
     length (chain bc) = 2 \<and> length (chain bc') = 3 \<and>
     previousHash (chain bc ! 0) = Str ''0'' \<and>
     previousHash (chain bc ! 1) = hash (chain bc ! 0) \<and>
     chain bc ! 1 \<in> set (chain bc) \<and>
     block_transactions bc' (chain bc ! 1) = [\<lparr>sender = ''a'', receiver = ''b'', amount = 3\<rparr>] \<and>
     block_transactions bc (chain bc ! 1) = [\<lparr>sender = ''a'', receiver = ''b'', amount = 3\<rparr>])"
  using chain_linked_append_only [OF new_Blockchain_lib0,
      of "[(5, CreateTransaction ''a'' ''b'' 3), (6, MineBlock 0)]"
      "[(7, CreateTransaction ''c'' ''d'' 4), (8, MineBlock 0)]"]
  by (simp add: ev)

text \<open>What the calls would do with a key derivation that returns: after the transactions
  \<open>txs\<close> are submitted to a reachable ledger with an empty pool, \<open>mineBlock\<close> returns the
  block it appends, holding exactly \<open>txs\<close>, and leaves the pool empty.\<close>

lemma sealed_block_if_scrypt_returns:
  assumes "new_Blockchain L t1 t2 = Inr bc0"
    and "bc = ledger_run L ops bc0"
    and "pending bc = []"
    and "calculateHash L (length (chain bc)) (hash (last (chain bc))) now txs = Inr h"
  shows "\<exists>b bc'. mineBlock L now d (submit_all txs bc) = Inr (b, bc') \<and>
           chain bc' = chain bc @ [b] \<and>
           block_transactions bc' b = txs \<and>
           pending bc' = []"
proof -
  have inv: "ledger_inv bc"
    unfolding assms(2) by (rule ledger_inv_run [OF ledger_inv_new [OF assms(1)]])
  then have p: "pool bc < length (arrays bc)" and c: "chain bc \<noteq> []"
    by (simp_all add: ledger_inv_def)
  have pend: "pending (submit_all txs bc) = txs"
    using pending_submit_all [OF p, of txs] assms(3) by simp
  have c': "chain (submit_all txs bc) \<noteq> []"
    and p': "pool (submit_all txs bc) < length (arrays (submit_all txs bc))"
    using p c by simp_all
  from assms(4) pend
  have "calculateHash L (length (chain (submit_all txs bc)))
      (hash (last (chain (submit_all txs bc)))) now (pending (submit_all txs bc)) = Inr h"
    by simp
  from mineBlock_returns [OF c' this, of d] obtain b bc' where
    m: "mineBlock L now d (submit_all txs bc) = Inr (b, bc')" by blast
  from mineBlock_result(1,2,3) [OF m p'] pend m show ?thesis by simp
qed

text \<open>
  C2. The claim is that after N \<open>createTransaction\<close> calls \<open>mineBlock\<close> returns and appends a
  block with those N transactions and empties the pool. \<open>calculateHash\<close> calls what
  \<open>require('scrypt-js')\<close> yields with six arguments, and that call throws: \<open>mineBlock\<close> then
  throws on every ledger, before \<open>this.chain.push\<close> and before the pool is rebound, so no
  block is returned or appended and the pool keeps its transactions.
\<close>

theorem mineBlock_throws:
  "mineBlock (L\<lparr>scrypt := \<lambda>password salt N r p dkLen. Inl e\<rparr>) now d bc
     = Inl (if chain bc = [] then TypeError else e) \<and>
   ledger_step (L\<lparr>scrypt := \<lambda>password salt N r p dkLen. Inl e\<rparr>) (now, MineBlock d)
     (submit_all txs bc) = submit_all txs bc"
  by (simp add: mineBlock_def calculateHash_def)

text \<open>With a key derivation that returns, every block \<open>mineBlock\<close> appends carries the
  digest of its own stored fields.\<close>

lemma sealed_step:
  assumes inv: "ledger_inv bc" and s: "sealed L bc"
  shows "sealed L (ledger_step L op bc)"
proof -
  obtain now x where op: "op = (now, x)" by (cases op)
  have old: "calculateHash L (index (chain bc ! i)) (previousHash (chain bc ! i))
        (timestamp (chain bc ! i)) (block_transactions (ledger_step L op bc) (chain bc ! i))
      = Inr (hash (chain bc ! i))"
    if "0 < i" "i < length (chain bc)" for i
    using that s step_block_kept [OF inv, of "chain bc ! i" L op] by (simp add: sealed_def)
  show ?thesis
  proof (cases x)
    case (CreateTransaction s r a)
    then have "chain (ledger_step L op bc) = chain bc"
      using op by (simp add: createTransaction_def)
    with old show ?thesis by (simp add: sealed_def)
  next
    case (MineBlock d)
    from inv have p: "pool bc < length (arrays bc)"
      by (simp add: ledger_inv_def)
    show ?thesis
    proof (cases "mineBlock L now d bc")
      case (Inl err)
      with MineBlock op s show ?thesis by simp
    next
      case (Inr r)
      obtain b bc' where r: "r = (b, bc')" by (cases r)
      with Inr have m: "mineBlock L now d bc = Inr (b, bc')" by simp
      note c = mineBlock_result(1) [OF m p] and h = mineBlock_result(7) [OF m p]
      from m MineBlock op have e: "ledger_step L op bc = bc'" by simp
      show ?thesis
        unfolding sealed_def e c
      proof (intro allI impI)
        fix i
        assume i: "0 < i \<and> i < length (chain bc @ [b])"
        show "calculateHash L (index ((chain bc @ [b]) ! i))
            (previousHash ((chain bc @ [b]) ! i)) (timestamp ((chain bc @ [b]) ! i))
            (block_transactions bc' ((chain bc @ [b]) ! i)) = Inr (hash ((chain bc @ [b]) ! i))"
        proof (cases "i < length (chain bc)")
          case True
          with i old [of i] e show ?thesis by (simp add: nth_append)
        next
          case False
          with i have "i = length (chain bc)" by simp
          with h show ?thesis by simp
        qed
      qed
    qed
  qed
qed

lemma sealed_run:
  "ledger_inv bc \<Longrightarrow> sealed L bc \<Longrightarrow> sealed L (ledger_run L ops bc)"
  unfolding ledger_run_def
  by (induction ops arbitrary: bc) (simp_all add: sealed_step ledger_inv_step)

lemma mined_blocks_sealed:
  assumes "new_Blockchain L t1 t2 = Inr bc0"
    and "bc = ledger_run L ops bc0"
    and "0 < i" and "i < length (chain bc)"
  shows "calculateHash L (index (chain bc ! i)) (previousHash (chain bc ! i))
           (timestamp (chain bc ! i)) (block_transactions bc (chain bc ! i))
         = Inr (hash (chain bc ! i))"
proof -
  have "sealed L bc0"
    using assms(1) by (auto simp: sealed_def new_Blockchain_Inr)
  then have "sealed L bc"
    unfolding assms(2) by (rule sealed_run [OF ledger_inv_new [OF assms(1)]])
  with assms(3,4) show ?thesis by (simp add: sealed_def)
qed

text \<open>The genesis block, with a key derivation that returns: its \<open>hash\<close> is the digest taken
  at the second clock reading, its \<open>timestamp\<close> the first.\<close>

lemma genesis_seal_of_other_reading:
  assumes "new_Blockchain L now1 now2 = Inr bc"
  shows "\<exists>g. chain bc = [g] \<and> timestamp g = now1 \<and> block_transactions bc g = [] \<and>
           calculateHash L 0 (Str ''0'') now2 [] = Inr (hash g)"
  using assms by (auto simp: new_Blockchain_Inr block_transactions_def)

lemma seal0_readings: "seal0 0 (Str ''0'') 1000 [] \<noteq> seal0 0 (Str ''0'') 1001 []"
  by (simp add: seal0_def calculateHash_def lib0_def decimal.simps hexdigit_def)

text \<open>
  C3. The claim is that the \<open>hash\<close> of every block, the genesis block created at
  initialization included, is the digest of the block's own stored fields. The
  constructor calls \<open>genesisBlock\<close>, which calls \<open>calculateHash\<close>, where the call of what
  \<open>require('scrypt-js')\<close> yields throws: \<open>new Blockchain()\<close> throws, and no genesis block
  with a seal of its own is created. Were the call to return, as with the stand-in
  library, the genesis block would store the first clock reading and carry the digest
  of the second, which is not the digest of its stored fields.
\<close>

theorem genesis_never_sealed:
  "new_Blockchain (L\<lparr>scrypt := \<lambda>password salt N r p dkLen. Inl e\<rparr>) now1 now2 = Inl e \<and>
   new_Blockchain lib0 1000 1001 = Inr ledger0 \<and>
   timestamp (chain ledger0 ! 0) = 1000 \<and>
   hash (chain ledger0 ! 0) = seal0 0 (Str ''0'') 1001 [] \<and>
   calculateHash lib0 (index (chain ledger0 ! 0)) (previousHash (chain ledger0 ! 0))
       (timestamp (chain ledger0 ! 0)) (block_transactions ledger0 (chain ledger0 ! 0))
     \<noteq> Inr (hash (chain ledger0 ! 0))"
proof -
  have "new_Blockchain (L\<lparr>scrypt := \<lambda>password salt N r p dkLen. Inl e\<rparr>) now1 now2 = Inl e"
    by (simp add: new_Blockchain_def genesisBlock_def calculateHash_def)
  moreover have "calculateHash lib0 (index (chain ledger0 ! 0)) (previousHash (chain ledger0 ! 0))
       (timestamp (chain ledger0 ! 0)) (block_transactions ledger0 (chain ledger0 ! 0))
     = Inr (seal0 0 (Str ''0'') 1000 [])"
    by (simp add: ledger0_def block_transactions_def calculateHash_lib0)
  moreover have "hash (chain ledger0 ! 0) = seal0 0 (Str ''0'') 1001 []"
    "timestamp (chain ledger0 ! 0) = 1000"
    by (simp_all add: ledger0_def)
  ultimately show ?thesis
    using seal0_readings new_Blockchain_lib0 by simp
qed


section \<open>The contract engine\<close>

text \<open>The equations that run the model on an example.\<close>

lemmas ev2 = run_def start0_def ledger0_def new_SmartContract_def createContract_def executeContract_def contract_at_def Let_def

lemma init_lib0: "init lib0 1000 1001 = Inr start0"
  by (simp add: init_def new_Blockchain_lib0 start0_def)

lemma init_Inr:
  "init L t1 t2 = Inr st \<longleftrightarrow> (\<exists>bc. new_Blockchain L t1 t2 = Inr bc \<and> st = new_SmartContract bc)"
  by (auto simp: init_def split: sum.splits)

lemma ids_inv_new: "ids_inv (new_SmartContract bc)"
  by (simp add: ids_inv_def new_SmartContract_def)

lemma ids_inv_step: "ids_inv st \<Longrightarrow> ids_inv (step L op st)"
proof (cases op)
  case (Pair now x)
  assume inv: "ids_inv st"
  show ?thesis
  proof (cases x)
    case (Transfer s r a)
    with Pair inv show ?thesis by (simp add: ids_inv_def)
  next
    case (Mine d)
    with Pair inv show ?thesis by (simp add: ids_inv_def)
  next
    case (CreateContract a b cond amt)
    with Pair inv show ?thesis
      by (auto simp: ids_inv_def createContract_def Let_def nth_append)
  next
    case (ExecuteContract i)
    with Pair inv show ?thesis
      by (auto simp: ids_inv_def executeContract_def contract_at_def nth_list_update
          split: option.splits if_splits)
  qed
qed

lemma ids_inv_run: "ids_inv st \<Longrightarrow> ids_inv (run L ops st)"
  unfolding run_def
  by (induction ops arbitrary: st) (simp_all add: ids_inv_step)

text \<open>The pool of the ledger stays an allocated array.\<close>

lemma pool_step:
  "pool (blockchain st) < length (arrays (blockchain st)) \<Longrightarrow>
   pool (blockchain (step L op st)) < length (arrays (blockchain (step L op st)))"
proof (cases op)
  case (Pair now x)
  assume p: "pool (blockchain st) < length (arrays (blockchain st))"
  show ?thesis
  proof (cases x)
    case (Transfer s r a)
    with Pair p show ?thesis by (simp add: createTransaction_def)
  next
    case (Mine d)
    with Pair p show ?thesis
      using pool_allocated_step [of "blockchain st" L "(now, MineBlock d)"] by simp
  next
    case (CreateContract a b cond amt)
    with Pair p show ?thesis by (simp add: createContract_def Let_def)
  next
    case (ExecuteContract i)
    with Pair p show ?thesis
      by (auto simp: executeContract_def createTransaction_def split: option.splits)
  qed
qed

lemma pool_run:
  "pool (blockchain st) < length (arrays (blockchain st)) \<Longrightarrow>
   pool (blockchain (run L ops st)) < length (arrays (blockchain (run L ops st)))"
  unfolding run_def
  by (induction ops arbitrary: st) (simp_all add: pool_step)

lemma contract_at_id:
  assumes "ids_inv st" and "c \<in> set (contracts st)"
  shows "contract_at (contracts st) (int (c_id c)) = Some c \<and> c_id c < length (contracts st)
     \<and> contracts st ! c_id c = c"
proof -
  from assms(2) obtain i where i: "i < length (contracts st)" "contracts st ! i = c"
    by (auto simp: in_set_conv_nth)
  with assms(1) have "c_id c = i" by (auto simp: ids_inv_def)
  with i show ?thesis by (simp add: contract_at_def)
qed

text \<open>
  C4. Take a back end reached by any history of calls from \<open>new SmartContract(blockchain)\<close>,
  on a ledger whose pool is an allocated array, and a contract \<open>c\<close> of it that is not
  executed yet. \<open>executeContract(c.id)\<close> at time \<open>now\<close> returns \<open>true\<close> exactly when
  \<open>now \<le> c.condition\<close>; it then appends the transaction \<open>(c.partyA, c.partyB, c.amount)\<close> to
  the pending pool and sets \<open>c.executed\<close>, and changes nothing else in the contract list
  or the chain. When \<open>now > c.condition\<close> it returns \<open>false\<close> and leaves the whole state,
  \<open>c.executed\<close> included, as it was.
\<close>

theorem executeContract_deadline:
  assumes "pool bc < length (arrays bc)"
    and "st = run L ops (new_SmartContract bc)"
    and "c \<in> set (contracts st)"
    and "\<not> executed c"
  shows "(fst (executeContract now (int (c_id c)) st) = Inr True \<longleftrightarrow> now \<le> condition c) \<and>
         (now \<le> condition c \<longrightarrow>
            (\<exists>st'. executeContract now (int (c_id c)) st = (Inr True, st') \<and>
               pending (blockchain st') = pending (blockchain st) @
                 [\<lparr>sender = partyA c, receiver = partyB c, amount = c_amount c\<rparr>] \<and>
               chain (blockchain st') = chain (blockchain st) \<and>
               contracts st' = (contracts st)[c_id c := c\<lparr>executed := True\<rparr>] \<and>
               contracts st' ! c_id c = c\<lparr>executed := True\<rparr>)) \<and>
         (condition c < now \<longrightarrow> executeContract now (int (c_id c)) st = (Inr False, st))"
proof -
  have inv: "ids_inv st"
    unfolding assms(2) by (rule ids_inv_run [OF ids_inv_new])
  from contract_at_id [OF inv assms(3)]
  have at: "contract_at (contracts st) (int (c_id c)) = Some c"
    and lt: "c_id c < length (contracts st)" by simp_all
  have p: "pool (blockchain st) < length (arrays (blockchain st))"
    unfolding assms(2) using assms(1) by (intro pool_run) (simp add: new_SmartContract_def)
  show ?thesis
    using at lt assms(4) pending_createTransaction [OF p]
    by (auto simp: executeContract_def createTransaction_def)
qed

theorem executeContract_deadline_witness:
  "let st = run lib0 [(1000, CreateContract ''A'' ''B'' 2000 50)] start0;
       c = contracts st ! 0 in
     c \<in> set (contracts st) \<and> \<not> executed c \<and> condition c = 2000 \<and>
     fst (executeContract 1500 (int (c_id c)) st) = Inr True \<and>
     pending (blockchain (snd (executeContract 1500 (int (c_id c)) st))) =
       [\<lparr>sender = ''A'', receiver = ''B'', amount = 50\<rparr>] \<and>
     executeContract 2500 (int (c_id c)) st = (Inr False, st)"
proof -
  define st where "st = run lib0 [(1000, CreateContract ''A'' ''B'' 2000 50)] start0"
  have c: "contracts st = [\<lparr>c_id = 0, partyA = ''A'', partyB = ''B'', condition = 2000,
      c_amount = 50, c_timestamp = 1000, executed = False\<rparr>]"
    and p: "pending (blockchain st) = []"
    by (simp_all add: st_def ev2 ev)
  have m: "contracts st ! 0 \<in> set (contracts st)" and n: "\<not> executed (contracts st ! 0)"
    by (simp_all add: c)
  have a: "pool ledger0 < length (arrays ledger0)" by (simp add: ledger0_def)
  from executeContract_deadline [OF a st_def [unfolded start0_def] m n, of 1500]
       executeContract_deadline [OF a st_def [unfolded start0_def] m n, of 2500] c p m n
  show ?thesis
    unfolding Let_def st_def [symmetric] by auto
qed

text \<open>
  C5, as stated, fails: on a back end without contracts, \<open>executeContract(5)\<close> does not
  fail with \<open>NotFound\<close>; it returns \<open>false\<close>.
\<close>

theorem executeContract_unknown_id_counterexample:
  "contract_at (contracts start0) 5 = None \<and>
   fst (executeContract 1000 5 start0) \<noteq> Inl NotFound \<and>
   fst (executeContract 1000 5 start0) = Inr False"
  by (simp add: ev2)

text \<open>
  C5, amended. For an id that identifies no contract, \<open>executeContract\<close> returns the plain
  \<open>false\<close> and changes nothing, which is also what it does for a contract already
  executed.
\<close>

theorem executeContract_unknown_id:
  "(contract_at (contracts st) i = None \<longrightarrow> executeContract now i st = (Inr False, st)) \<and>
   (\<forall>c. contract_at (contracts st) i = Some c \<and> executed c \<longrightarrow>
        executeContract now i st = (Inr False, st))"
  by (simp add: executeContract_def)

theorem executeContract_unknown_id_witness:
  "let st = snd (executeContract 1500 0
              (run lib0 [(1000, CreateContract ''A'' ''B'' 2000 50)] start0)) in
     contract_at (contracts st) (-1) = None \<and> executeContract 1600 (-1) st = (Inr False, st) \<and>
     contract_at (contracts st) 1 = None \<and> executeContract 1600 1 st = (Inr False, st) \<and>
     contract_at (contracts st) 0 = Some (contracts st ! 0) \<and> executed (contracts st ! 0) \<and>
     executeContract 1600 0 st = (Inr False, st)"
proof -
  define st where "st = snd (executeContract 1500 0
              (run lib0 [(1000, CreateContract ''A'' ''B'' 2000 50)] start0))"
  have c: "contracts st = [\<lparr>c_id = 0, partyA = ''A'', partyB = ''B'', condition = 2000,
      c_amount = 50, c_timestamp = 1000, executed = True\<rparr>]"
    by (simp add: st_def ev2)
  have a: "contract_at (contracts st) (-1) = None" "contract_at (contracts st) 1 = None"
     "contract_at (contracts st) 0 = Some (contracts st ! 0)" "executed (contracts st ! 0)"
    by (simp_all add: c contract_at_def)
  from executeContract_unknown_id [of st "-1" 1600] executeContract_unknown_id [of st 1 1600]
    executeContract_unknown_id [of st 0 1600] a
  show ?thesis
    unfolding Let_def st_def [symmetric] by blast
qed

text \<open>
  C7. When \<open>executeContract\<close> does not return \<open>true\<close>, the state it leaves is the state it
  found: no transaction is added to the pool and no contract is changed.
\<close>

theorem executeContract_failure_atomic:
  "fst (executeContract now i st) \<noteq> Inr True \<Longrightarrow> snd (executeContract now i st) = st"
  by (simp add: executeContract_def split: option.splits if_splits)

theorem executeContract_failure_atomic_witness:
  "let st = run lib0 [(1000, CreateContract ''A'' ''B'' 2000 50)] start0 in
     fst (executeContract 2500 0 st) \<noteq> Inr True \<and> snd (executeContract 2500 0 st) = st \<and>
     fst (executeContract 1500 7 st) \<noteq> Inr True \<and> snd (executeContract 1500 7 st) = st"
proof -
  define st where "st = run lib0 [(1000, CreateContract ''A'' ''B'' 2000 50)] start0"
  have c: "contracts st = [\<lparr>c_id = 0, partyA = ''A'', partyB = ''B'', condition = 2000,
      c_amount = 50, c_timestamp = 1000, executed = False\<rparr>]"
    by (simp add: st_def ev2)
  have a: "fst (executeContract 2500 0 st) \<noteq> Inr True" "fst (executeContract 1500 7 st) \<noteq> Inr True"
    by (simp_all add: executeContract_def contract_at_def c)
  from executeContract_failure_atomic [OF a(1)] executeContract_failure_atomic [OF a(2)] a
  show ?thesis
    unfolding Let_def st_def [symmetric] by blast
qed

lemma assigned_ids_from:
  "assigned_ids L ops st =
     [length (contracts st) ..< length (contracts (run L ops st))]
   \<and> length (contracts st) \<le> length (contracts (run L ops st))"
  unfolding run_def
proof (induction ops arbitrary: st)
  case Nil
  show ?case by simp
next
  case (Cons op ops)
  obtain now x where op: "op = (now, x)" by (cases op)
  note IH = Cons.IH [of "step L (now, x) st"]
  show ?case
  proof (cases x)
    case (Transfer s r a)
    with op IH show ?thesis by simp
  next
    case (Mine d)
    with op IH show ?thesis by simp
  next
    case (CreateContract a b cond amt)
    have "length (contracts (step L (now, CreateContract a b cond amt) st))
        = Suc (length (contracts st))"
      by (simp add: createContract_def Let_def)
    with CreateContract op IH show ?thesis
      by (auto simp: createContract_def Let_def upt_conv_Cons)
  next
    case (ExecuteContract i)
    have "length (contracts (step L (now, ExecuteContract i) st)) = length (contracts st)"
      by (simp add: executeContract_def split: option.splits)
    with ExecuteContract op IH show ?thesis by simp
  qed
qed

text \<open>
  C8. \<open>createContract\<close> has no failing path: it returns a new contract with the given
  fields, \<open>executed = false\<close> and the id \<open>contracts.length\<close>, appended to the contract list.
  Along every history from \<open>new SmartContract(blockchain)\<close>, on any ledger, the ids handed
  out are 0, 1, 2, ... in call order, hence distinct and strictly increasing, and they
  are the ids of the contract list.
\<close>

theorem createContract_sequential_ids:
  "(let (c, st') = createContract now a b cond amt st in
      c = \<lparr>c_id = length (contracts st), partyA = a, partyB = b, condition = cond,
            c_amount = amt, c_timestamp = now, executed = False\<rparr> \<and>
      contracts st' = contracts st @ [c] \<and> blockchain st' = blockchain st) \<and>
   assigned_ids L ops (new_SmartContract bc)
     = [0 ..< length (assigned_ids L ops (new_SmartContract bc))] \<and>
   distinct (assigned_ids L ops (new_SmartContract bc)) \<and>
   sorted_wrt (<) (assigned_ids L ops (new_SmartContract bc)) \<and>
   map c_id (contracts (run L ops (new_SmartContract bc)))
     = assigned_ids L ops (new_SmartContract bc)"
proof -
  let ?st = "run L ops (new_SmartContract bc)"
  have z: "length (contracts (new_SmartContract bc)) = 0"
    by (simp add: new_SmartContract_def)
  have ids: "assigned_ids L ops (new_SmartContract bc) = [0 ..< length (contracts ?st)]"
    using assigned_ids_from [of L ops "new_SmartContract bc"] z by simp
  have "ids_inv ?st" by (rule ids_inv_run [OF ids_inv_new])
  then have m: "map c_id (contracts ?st) = [0 ..< length (contracts ?st)]"
    by (auto simp: ids_inv_def intro: nth_equalityI)
  show ?thesis
    unfolding ids m by (simp add: createContract_def Let_def)
qed

theorem createContract_sequential_ids_witness:
  "let ops = [(1000, CreateContract ''A'' ''B'' 2000 50), (1500, ExecuteContract 0),
              (1600, CreateContract ''C'' ''D'' 0 (-3)), (1700, Transfer ''x'' ''y'' 1),
              (1800, CreateContract ''E'' ''F'' 9000 7)] in
     assigned_ids lib0 ops start0 = [0, 1, 2] \<and>
     map c_id (contracts (run lib0 ops start0)) = [0, 1, 2] \<and>
     map executed (contracts (run lib0 ops start0)) = [True, False, False]"
  using createContract_sequential_ids [of 0 "''''" "''''" 0 0 start0 lib0
      "[(1000, CreateContract ''A'' ''B'' 2000 50), (1500, ExecuteContract 0),
              (1600, CreateContract ''C'' ''D'' 0 (-3)), (1700, Transfer ''x'' ''y'' 1),
              (1800, CreateContract ''E'' ''F'' 9000 7)]" ledger0]
  by (simp add: ev2)

lemma executeContract_dead:
  "contract_at (contracts st) i \<noteq> None \<Longrightarrow> dead now i (snd (executeContract now i st))"
  by (auto simp: dead_def executeContract_def contract_at_def split: option.splits if_splits)

lemma dead_mono: "dead t i st \<Longrightarrow> t \<le> t' \<Longrightarrow> dead t' i st"
  by (auto simp: dead_def split: option.splits)

lemma dead_executeContract: "dead now i st \<Longrightarrow> executeContract now i st = (Inr False, st)"
  by (auto simp: dead_def executeContract_def split: option.splits)

lemma dead_step:
  "dead t i st \<Longrightarrow> t \<le> t' \<Longrightarrow>
   dead t' i (step L (t', x) st) \<and>
   executed (contracts (step L (t', x) st) ! nat i) = executed (contracts st ! nat i)"
proof (cases x)
  case (Transfer s r a)
  assume "dead t i st" "t \<le> t'"
  with Transfer show ?thesis by (auto simp: dead_def split: option.splits)
next
  case (Mine d)
  assume "dead t i st" "t \<le> t'"
  with Mine show ?thesis by (auto simp: dead_def split: option.splits)
next
  case (CreateContract a b cond amt)
  assume "dead t i st" "t \<le> t'"
  with CreateContract show ?thesis
    by (auto simp: dead_def createContract_def Let_def contract_at_def nth_append split: if_splits)
next
  case (ExecuteContract j)
  assume d: "dead t i st" and le: "t \<le> t'"
  show ?thesis
  proof (cases "j = i")
    case True
    with ExecuteContract dead_executeContract [OF dead_mono [OF d le]] dead_mono [OF d le]
    show ?thesis by simp
  next
    case False
    with ExecuteContract d le show ?thesis
      by (auto simp: dead_def executeContract_def contract_at_def nth_list_update
          split: option.splits if_splits)
  qed
qed

lemma dead_run:
  "dead t i st \<Longrightarrow> sorted (t # map fst ops) \<Longrightarrow>
   dead (last (t # map fst ops)) i (run L ops st) \<and>
   executed (contracts (run L ops st) ! nat i) = executed (contracts st ! nat i)"
  unfolding run_def
proof (induction ops arbitrary: t st)
  case Nil
  then show ?case by simp
next
  case (Cons op ops)
  obtain t' x where op: "op = (t', x)" by (cases op)
  from Cons.prems op have le: "t \<le> t'" and s: "sorted (t' # map fst ops)" by simp_all
  from dead_step [OF Cons.prems(1) le, of L x]
  have d: "dead t' i (step L (t', x) st)"
    and e: "executed (contracts (step L (t', x) st) ! nat i) = executed (contracts st ! nat i)"
    by simp_all
  from Cons.IH [OF d s] e op show ?case by simp
qed

lemma step_flag:
  "j < length (contracts st) \<Longrightarrow>
   j < length (contracts (step L (t, x) st)) \<and>
   (executed (contracts st ! j) \<longrightarrow> executed (contracts (step L (t, x) st) ! j)) \<and>
   (\<not> executed (contracts st ! j) \<and> executed (contracts (step L (t, x) st) ! j) \<longrightarrow>
      x = ExecuteContract (int j) \<and> fst (executeContract t (int j) st) = Inr True)"
proof (cases x)
  case (Transfer s r a)
  assume "j < length (contracts st)"
  with Transfer show ?thesis by simp
next
  case (Mine d)
  assume "j < length (contracts st)"
  with Mine show ?thesis by simp
next
  case (CreateContract a b cond amt)
  assume "j < length (contracts st)"
  with CreateContract show ?thesis
    by (simp add: createContract_def Let_def nth_append)
next
  case (ExecuteContract i)
  assume "j < length (contracts st)"
  with ExecuteContract show ?thesis
    by (auto simp: executeContract_def contract_at_def nth_list_update
        split: option.splits if_splits)
qed

lemma run_flag:
  "j < length (contracts st) \<Longrightarrow> executed (contracts st ! j) \<Longrightarrow>
   j < length (contracts (run L ops st)) \<and> executed (contracts (run L ops st) ! j)"
  unfolding run_def
proof (induction ops arbitrary: st)
  case Nil
  then show ?case by simp
next
  case (Cons op ops)
  obtain t x where op: "op = (t, x)" by (cases op)
  from step_flag [OF Cons.prems(1), of L t x] Cons.prems(2)
  have "j < length (contracts (step L (t, x) st))" "executed (contracts (step L (t, x) st) ! j)"
    by simp_all
  from Cons.IH [OF this] op show ?case by simp
qed

lemma second_call:
  "now1 \<le> now2 \<Longrightarrow>
   executeContract now2 i (snd (executeContract now1 i st)) =
     (Inr False, snd (executeContract now1 i st))"
proof (cases "contract_at (contracts st) i")
  case None
  then show ?thesis by (simp add: executeContract_def)
next
  case (Some c)
  assume le: "now1 \<le> now2"
  from Some have "dead now1 i (snd (executeContract now1 i st))"
    by (simp add: executeContract_dead)
  from dead_executeContract [OF dead_mono [OF this le]] show ?thesis .
qed

lemma second_call_later:
  assumes "contract_at (contracts st) i \<noteq> None"
    and "sorted (now1 # map fst ops @ [now2])"
  shows "executeContract now2 i (run L ops (snd (executeContract now1 i st))) =
           (Inr False, run L ops (snd (executeContract now1 i st))) \<and>
         executed (contracts (run L ops (snd (executeContract now1 i st))) ! nat i) =
           executed (contracts (snd (executeContract now1 i st)) ! nat i)"
proof -
  let ?st1 = "snd (executeContract now1 i st)"
  have d: "dead now1 i ?st1" using assms(1) by (rule executeContract_dead)
  from assms(2) have s: "sorted (now1 # map fst ops)"
    and b: "\<forall>u \<in> set (now1 # map fst ops). u \<le> now2"
    by (auto simp: sorted_append)
  have "last (now1 # map fst ops) \<in> set (now1 # map fst ops)"
    by (rule last_in_set) simp
  with b have le: "last (now1 # map fst ops) \<le> now2" by blast
  from dead_run [OF d s, of L]
  have d2: "dead (last (now1 # map fst ops)) i (run L ops ?st1)"
    and e: "executed (contracts (run L ops ?st1) ! nat i) = executed (contracts ?st1 ! nat i)"
    by simp_all
  from dead_executeContract [OF dead_mono [OF d2 le]] e show ?thesis by simp
qed

text \<open>
  C6. No call removes a contract or resets its \<open>executed\<close> flag, neither in one step nor
  over a history; a flag goes from \<open>false\<close> to \<open>true\<close> only in an \<open>executeContract\<close> call on
  that contract that returns \<open>true\<close>. A second \<open>executeContract(id)\<close> right after a first
  one, at a clock reading that is not earlier, returns \<open>false\<close> and changes nothing, for
  every id; for the id of a contract the same holds when any calls with non-decreasing
  clock readings come between the two, and the flag is then as the first call left it.
\<close>

theorem executed_flag_set_once:
  "(\<forall>j < length (contracts st).
       j < length (contracts (step L (t, x) st)) \<and>
       (executed (contracts st ! j) \<longrightarrow> executed (contracts (step L (t, x) st) ! j)) \<and>
       (\<not> executed (contracts st ! j) \<and> executed (contracts (step L (t, x) st) ! j) \<longrightarrow>
          x = ExecuteContract (int j) \<and> fst (executeContract t (int j) st) = Inr True) \<and>
       (executed (contracts st ! j) \<longrightarrow> executed (contracts (run L ops st) ! j))) \<and>
   (now1 \<le> now2 \<longrightarrow>
      executeContract now2 i (snd (executeContract now1 i st)) =
        (Inr False, snd (executeContract now1 i st))) \<and>
   (contract_at (contracts st) i \<noteq> None \<and> sorted (now1 # map fst ops @ [now2]) \<longrightarrow>
      executeContract now2 i (run L ops (snd (executeContract now1 i st))) =
        (Inr False, run L ops (snd (executeContract now1 i st))) \<and>
      executed (contracts (run L ops (snd (executeContract now1 i st))) ! nat i) =
        executed (contracts (snd (executeContract now1 i st)) ! nat i))"
  using step_flag [of _ st L t x] run_flag [of _ st L ops] second_call [of now1 now2 i st]
    second_call_later [of st i now1 ops now2 L]
  by blast

theorem executed_flag_set_once_witness:
  "let st = run lib0 [(1000, CreateContract ''A'' ''B'' 2000 50)] start0;
       st1 = snd (executeContract 1500 0 st);
       ops = [(1550, CreateContract ''C'' ''D'' 9000 7), (1560, ExecuteContract 0), (1570, Mine 0)] in
     (0::nat) < length (contracts st) \<and> \<not> executed (contracts st ! 0) \<and>
     executed (contracts (step lib0 (1500, ExecuteContract 0) st) ! 0) \<and>
     fst (executeContract 1500 0 st) = Inr True \<and>
     (1500::int) \<le> 1600 \<and> executeContract 1600 0 st1 = (Inr False, st1) \<and>
     contract_at (contracts st) 0 \<noteq> None \<and> sorted (1500 # map fst ops @ [1600::int]) \<and>
     executeContract 1600 0 (run lib0 ops st1) = (Inr False, run lib0 ops st1) \<and>
     executed (contracts (run lib0 ops st1) ! 0) \<and> executed (contracts st1 ! 0)"
proof -
  define st where "st = run lib0 [(1000, CreateContract ''A'' ''B'' 2000 50)] start0"
  define ops :: "(int \<times> op) list" where
    "ops = [(1550, CreateContract ''C'' ''D'' 9000 7), (1560, ExecuteContract 0), (1570, Mine 0)]"
  have c: "contracts st = [\<lparr>c_id = 0, partyA = ''A'', partyB = ''B'', condition = 2000,
      c_amount = 50, c_timestamp = 1000, executed = False\<rparr>]"
    by (simp add: st_def ev2)
  have a: "(0::nat) < length (contracts st)" "\<not> executed (contracts st ! 0)"
    "executed (contracts (step lib0 (1500, ExecuteContract 0) st) ! 0)"
    "contract_at (contracts st) 0 \<noteq> None" "sorted (1500 # map fst ops @ [1600::int])"
    "executed (contracts (snd (executeContract 1500 0 st)) ! 0)"
    by (simp_all add: c executeContract_def contract_at_def ops_def)
  from executed_flag_set_once [of st lib0 1500 "ExecuteContract 0" ops 1500 1600 0] a
  show ?thesis
    unfolding Let_def st_def [symmetric] ops_def [symmetric] by auto
qed

text \<open>The order of the clock readings matters: were the clock set back between the two
  calls, the second call on a contract whose deadline had passed would succeed.\<close>

lemma second_call_with_clock_set_back:
  "let st = run lib0 [(1000, CreateContract ''A'' ''B'' 2000 50)] start0;
       st1 = snd (executeContract 2500 0 st) in
     fst (executeContract 2500 0 st) = Inr False \<and> fst (executeContract 1500 0 st1) = Inr True"
  by (simp add: ev2)


section \<open>The chat relay\<close>

lemma users_broadcast [simp]: "users (broadcast L m st) = users st"
  by (simp add: broadcast_def)

text \<open>
  C9. A frame that parses to a \<open>message\<close> is handled without error: every socket of the
  server that is \<open>OPEN\<close> is sent the one frame carrying \<open>nickname: content\<close>, once, after
  what it was sent before; a socket in any other state is left as it is; no socket is
  added, removed or reordered, and the registry \<open>users\<close> is not changed.
\<close>

theorem onMessage_broadcast:
  assumes "JSON_parse L message = Some d" and "msg_type d = ''message''"
  shows "\<exists>st'. on_message L ws message st = Inr st' \<and>
           users st' = users st \<and>
           length (wss st') = length (wss st) \<and>
           (\<forall>k < length (wss st).
              conn (wss st' ! k) = conn (wss st ! k) \<and>
              readyState (wss st' ! k) = readyState (wss st ! k) \<and>
              (readyState (wss st ! k) = OPEN \<longrightarrow>
                 sent (wss st' ! k) = sent (wss st ! k) @
                   [JSON_stringify L (JObject [(''type'', JString ''message''),
                      (''content'', JString (nickname d @ '': '' @ content d))])]) \<and>
              (readyState (wss st ! k) \<noteq> OPEN \<longrightarrow> wss st' ! k = wss st ! k))"
  using assms by (simp add: on_message_def broadcast_def send_def)

theorem onMessage_broadcast_witness:
  "let st = \<lparr>wss = [\<lparr>conn = 1, readyState = OPEN, sent = []\<rparr>,
                      \<lparr>conn = 2, readyState = CLOSED, sent = []\<rparr>,
                      \<lparr>conn = 3, readyState = OPEN, sent = [''x'']\<rparr>],
              users = [(''alice'', 1), (''bob'', 2)]\<rparr>;
       frame = show_json (JObject [(''type'', JString ''message''), (''content'', JString ''alice: hi'')]) in
     JSON_parse lib1 ''message|alice|hi'' =
       Some \<lparr>msg_type = ''message'', nickname = ''alice'', content = ''hi''\<rparr> \<and>
     on_message lib1 1 ''message|alice|hi'' st =
       Inr \<lparr>wss = [\<lparr>conn = 1, readyState = OPEN, sent = [frame]\<rparr>,
                     \<lparr>conn = 2, readyState = CLOSED, sent = []\<rparr>,
                     \<lparr>conn = 3, readyState = OPEN, sent = [''x'', frame]\<rparr>],
             users = [(''alice'', 1), (''bob'', 2)]\<rparr>"
proof -
  have p: "JSON_parse lib1 ''message|alice|hi'' =
       Some \<lparr>msg_type = ''message'', nickname = ''alice'', content = ''hi''\<rparr>"
    by (simp add: lib1_def parse0_def)
  have s: "JSON_stringify lib1 = show_json"
    by (simp add: lib1_def lib0_def)
  have m: "msg_type \<lparr>msg_type = ''message'', nickname = ''alice'', content = ''hi''\<rparr> = ''message''"
    by simp
  from onMessage_broadcast [OF p m, of 1 "\<lparr>wss = [\<lparr>conn = 1, readyState = OPEN, sent = []\<rparr>,
                      \<lparr>conn = 2, readyState = CLOSED, sent = []\<rparr>,
                      \<lparr>conn = 3, readyState = OPEN, sent = [''x'']\<rparr>],
              users = [(''alice'', 1), (''bob'', 2)]\<rparr>"] p
  show ?thesis
    by (simp add: on_message_def broadcast_def send_def s)
qed


section \<open>The encryption envelope\<close>

lemma hexval_hexdigit:
  assumes "n < 16"
  shows "hexval (hexdigit n) = Some n"
proof -
  have "\<forall>k \<in> set [0..<16]. hexval (hexdigit k) = Some k"
    by (simp add: upt_rec hexval_def hexdigit_def)
  with assms show ?thesis by simp
qed

lemma byte_split: "word_of_nat (16 * (unat b div 16) + unat b mod 16) = (b :: byte)"
  by simp

lemma Buffer_from_hex_toString_hex: "Buffer_from_hex (toString_hex bs) = bs"
proof (induction bs)
  case Nil
  show ?case by simp
next
  case (Cons b bs)
  have "unat b div 16 < 16"
    using unsigned_less [of b, where 'a = nat] by (simp add: less_mult_imp_div_less)
  then have "hexval (hexdigit (unat b div 16)) = Some (unat b div 16)"
    by (rule hexval_hexdigit)
  moreover have "hexval (hexdigit (unat b mod 16)) = Some (unat b mod 16)"
    by (rule hexval_hexdigit) simp
  ultimately show ?case using Cons.IH by (simp add: byte_split del: of_nat_add of_nat_mult)
qed

text \<open>Decoding the UTF-8 encoding of a scalar value gives the scalar value back.\<close>

lemma mod_off: "a < m \<Longrightarrow> c = k * m \<Longrightarrow> (c + a) mod m = (a::nat)"
  by simp

lemma split2: "(q::nat) * 64 = (q div 64) * 4096 + (q mod 64) * 64"
proof -
  define a where "a = q div 64"
  define b where "b = q mod 64"
  have "q = a * 64 + b" by (simp add: a_def b_def)
  then show ?thesis unfolding a_def [symmetric] b_def [symmetric] by simp
qed

lemma split3: "(n::nat) = (n div 4096) * 4096 + (n div 64 mod 64) * 64 + n mod 64"
proof -
  have "n div 4096 = n div 64 div 64" by (simp add: div_mult2_eq)
  with split2 [of "n div 64"]
  have "(n div 4096) * 4096 + (n div 64 mod 64) * 64 = (n div 64) * 64" by simp
  moreover have "n = (n div 64) * 64 + n mod 64" by simp
  ultimately show ?thesis by linarith
qed

lemma split4:
  "(n::nat) = (n div 262144) * 262144 + (n div 4096 mod 64) * 4096 + (n div 64 mod 64) * 64 + n mod 64"
proof -
  have "n div 262144 = n div 4096 div 64" by (simp add: div_mult2_eq)
  with split2 [of "n div 4096"]
  have "(n div 4096) * 64 = (n div 262144) * 4096 + (n div 4096 mod 64) * 64" by simp
  then have "(n div 4096) * 4096 = (n div 262144) * 262144 + (n div 4096 mod 64) * 4096"
    by linarith
  with split3 [of n] show ?thesis by linarith
qed

lemma decode1:
  "n < 0x80 \<Longrightarrow>
   utf8_decode 0 0 0 0x80 0xBF (utf8 n @ rest) = n # utf8_decode 0 0 0 0x80 0xBF rest"
  by (simp add: utf8_def)

lemma decode2:
  assumes "0x80 \<le> n" "n < 0x800"
  shows "utf8_decode 0 0 0 0x80 0xBF (utf8 n @ rest) = n # utf8_decode 0 0 0 0x80 0xBF rest"
proof -
  define a where "a = n div 64"
  define b where "b = n mod 64"
  have n: "a * 64 + b = n" and b: "b < 64" by (simp_all add: a_def b_def)
  from assms have a: "2 \<le> a" "a < 32" by (simp_all add: a_def)
  have u: "utf8 n = [0xC0 + a, 0x80 + b]"
    using assms by (simp add: utf8_def a_def b_def)
  have m: "(0xC0 + a) mod 32 = a" "(0x80 + b) mod 64 = b"
    using a b mod_off [of a 32 "0xC0" 6] mod_off [of b 64 "0x80" 2] by simp_all
  show ?thesis
    unfolding u using a b by (simp add: m n)
qed

lemma decode3:
  assumes "0x800 \<le> n" "n < 0x10000" "\<not> (0xD800 \<le> n \<and> n \<le> 0xDFFF)"
  shows "utf8_decode 0 0 0 0x80 0xBF (utf8 n @ rest) = n # utf8_decode 0 0 0 0x80 0xBF rest"
proof -
  define a where "a = n div 4096"
  define b where "b = n div 64 mod 64"
  define c where "c = n mod 64"
  have n: "a * 4096 + b * 64 + c = n"
    using split3 [of n] by (simp add: a_def b_def c_def)
  have b: "b < 64" and c: "c < 64" by (simp_all add: b_def c_def)
  from assms have a: "a < 16" by (simp add: a_def)
  have lo: "a = 0 \<Longrightarrow> 32 \<le> b"
    using n assms(1) c by simp
  have hi: "a = 13 \<Longrightarrow> b < 32"
    using n assms(3) b c by linarith
  have u: "utf8 n = [0xE0 + a, 0x80 + b, 0x80 + c]"
    using assms by (simp add: utf8_def a_def b_def c_def)
  have m: "(0xE0 + a) mod 16 = a" "(0x80 + b) mod 64 = b" "(0x80 + c) mod 64 = c"
    using a b c mod_off [of a 16 "0xE0" 14] mod_off [of b 64 "0x80" 2] mod_off [of c 64 "0x80" 2]
    by simp_all
  have a13: "a = 13 \<Longrightarrow> 53248 + b * 64 + c = n"
    and a0: "a = 0 \<Longrightarrow> b * 64 + c = n"
    and an: "4096 * a + b * 64 + c = n"
    using n by simp_all
  show ?thesis
    unfolding u using a b c lo hi a13 a0 an by (auto simp: m)
qed

lemma decode4:
  assumes "0x10000 \<le> n" "n < 0x110000"
  shows "utf8_decode 0 0 0 0x80 0xBF (utf8 n @ rest) = n # utf8_decode 0 0 0 0x80 0xBF rest"
proof -
  define a where "a = n div 262144"
  define b where "b = n div 4096 mod 64"
  define c where "c = n div 64 mod 64"
  define d where "d = n mod 64"
  have n: "a * 262144 + b * 4096 + c * 64 + d = n"
    using split4 [of n] by (simp add: a_def b_def c_def d_def)
  have b: "b < 64" and c: "c < 64" and d: "d < 64" by (simp_all add: b_def c_def d_def)
  from assms have a: "a \<le> 4" by (simp add: a_def)
  have lo: "a = 0 \<Longrightarrow> 16 \<le> b"
    using n assms(1) c d by simp
  have hi: "a = 4 \<Longrightarrow> b < 16"
    using n assms(2) c d by simp
  have u: "utf8 n = [0xF0 + a, 0x80 + b, 0x80 + c, 0x80 + d]"
    using assms by (simp add: utf8_def a_def b_def c_def d_def)
  have m: "(0xF0 + a) mod 8 = a" "(0x80 + b) mod 64 = b" "(0x80 + c) mod 64 = c"
      "(0x80 + d) mod 64 = d"
    using a b c d mod_off [of a 8 "0xF0" 30] mod_off [of b 64 "0x80" 2]
      mod_off [of c 64 "0x80" 2] mod_off [of d 64 "0x80" 2]
    by simp_all
  have e: "((a * 64 + b) * 64 + c) * 64 + d = n" using n by simp
  have a4: "a = 4 \<Longrightarrow> 1048576 + 4096 * b + c * 64 + d = n"
    and a0: "a = 0 \<Longrightarrow> 4096 * b + c * 64 + d = n"
    and an: "262144 * a + 4096 * b + c * 64 + d = n"
    using n by simp_all
  show ?thesis
    unfolding u using a b c d lo hi a4 a0 an by (auto simp: m)
qed

lemma decode_utf8:
  "scalar n \<Longrightarrow>
   utf8_decode 0 0 0 0x80 0xBF (utf8 n @ rest) = n # utf8_decode 0 0 0 0x80 0xBF rest"
  using decode1 [of n rest] decode2 [of n rest] decode3 [of n rest] decode4 [of n rest]
  unfolding scalar_def by linarith

lemma utf8_bytes:
  assumes "n < 0x110000" and "b \<in> set (utf8 n)"
  shows "b < 256"
proof -
  have m: "n mod 64 < 64" "n div 64 mod 64 < 64" "n div 4096 mod 64 < 64" by simp_all
  have d: "n < 0x800 \<Longrightarrow> n div 64 < 32" "n < 0x10000 \<Longrightarrow> n div 4096 < 16"
    "n div 262144 < 5"
    using assms(1) by (simp_all add: less_mult_imp_div_less)
  from assms(2) consider "n < 0x80" "b = n"
    | "n < 0x800" "b = 0xC0 + n div 64 \<or> b = 0x80 + n mod 64"
    | "n < 0x10000" "b = 0xE0 + n div 4096 \<or> b = 0x80 + n div 64 mod 64 \<or> b = 0x80 + n mod 64"
    | "b = 0xF0 + n div 262144 \<or> b = 0x80 + n div 4096 mod 64 \<or> b = 0x80 + n div 64 mod 64
        \<or> b = 0x80 + n mod 64"
    by (auto simp: utf8_def split: if_splits)
  then show ?thesis
  proof cases
    case 1
    then show ?thesis by simp
  next
    case 2
    with m d show ?thesis by linarith
  next
    case 3
    with m d show ?thesis by linarith
  next
    case 4
    with m d show ?thesis by linarith
  qed
qed

lemma unat16: "unat (c :: unit16) < 0x10000"
  using unsigned_less [of c, where 'a = nat] by simp

lemma pair_value:
  assumes "is_high c" "is_low d"
  defines "n \<equiv> 0x10000 + (unat c - 0xD800) * 0x400 + (unat d - 0xDC00)"
  shows "0x10000 \<le> n" "n < 0x110000"
    "(n - 0x10000) div 0x400 = unat c - 0xD800" "(n - 0x10000) mod 0x400 = unat d - 0xDC00"
proof -
  define h where "h = unat c - 0xD800"
  define l where "l = unat d - 0xDC00"
  from assms(1,2) have h: "h < 0x400" and l: "l < 0x400"
    unfolding h_def l_def is_high_def is_low_def by linarith+
  have n: "n = 0x10000 + h * 0x400 + l" by (simp add: n_def h_def l_def)
  show "0x10000 \<le> n" by (simp add: n)
  show "n < 0x110000" using h l by (simp add: n)
  have "n - 0x10000 = h * 0x400 + l" by (simp add: n)
  with l show "(n - 0x10000) div 0x400 = unat c - 0xD800"
    "(n - 0x10000) mod 0x400 = unat d - 0xDC00"
    by (simp_all add: h_def l_def)
qed

lemma scalar_unit: "\<not> is_high c \<Longrightarrow> \<not> is_low c \<Longrightarrow> scalar (unat c)"
  using unat16 [of c] unfolding scalar_def is_high_def is_low_def by linarith

lemma scalar_replacement: "scalar 0xFFFD"
  by (simp add: scalar_def)

lemma scalar_pair:
  "is_high c \<Longrightarrow> is_low d \<Longrightarrow> scalar (0x10000 + (unat c - 0xD800) * 0x400 + (unat d - 0xDC00))"
  using pair_value(1,2) [of c d] unfolding scalar_def by linarith

lemma scalar_first: "scalar (if is_high c \<or> is_low c then 0xFFFD else unat c)"
  using scalar_unit [of c] scalar_replacement by (cases "is_high c \<or> is_low c") simp_all

lemma scalars_scalar: "n \<in> set (scalars s) \<Longrightarrow> scalar n"
proof (induction s arbitrary: n rule: scalars.induct)
  case 1
  then show ?case by simp
next
  case (2 c)
  then have "n = (if is_high c \<or> is_low c then 0xFFFD else unat c)" by simp
  then show ?case by (simp only: scalar_first)
next
  case (3 c d cs)
  show ?case
  proof (cases "is_high c \<and> is_low d")
    case True
    with "3.prems" have "n = 0x10000 + (unat c - 0xD800) * 0x400 + (unat d - 0xDC00)
        \<or> n \<in> set (scalars cs)"
      by simp
    with True "3.IH"(1) scalar_pair [of c d] show ?thesis by blast
  next
    case False
    with "3.prems" have "n = (if is_high c \<or> is_low c then 0xFFFD else unat c)
        \<or> n \<in> set (scalars (d # cs))"
      by simp
    with False "3.IH"(2) scalar_first [of c] show ?thesis by metis
  qed
qed

text \<open>The round trip through UTF-8 is the identity on well-formed strings, and only on
  them: a lone surrogate comes back as U+FFFD.\<close>

lemma decode_concat:
  "(\<forall>n \<in> set ns. scalar n) \<Longrightarrow> utf8_decode 0 0 0 0x80 0xBF (concat (map utf8 ns)) = ns"
  by (induction ns) (simp_all add: decode_utf8)

lemma unat_bytes:
  "(\<forall>b \<in> set xs. b < 256) \<Longrightarrow> map unat (map word_of_nat xs :: byte list) = xs"
  by (induction xs) (simp_all add: unat_of_nat)

lemma utf16_scalars: "isWellFormed s \<Longrightarrow> concat (map utf16 (scalars s)) = s"
proof (induction s rule: isWellFormed.induct)
  case 1
  show ?case by simp
next
  case (2 c)
  then show ?case using unat16 [of c] by (simp add: utf16_def)
next
  case (3 c d cs)
  show ?case
  proof (cases "is_high c")
    case True
    with "3.prems" have d: "is_low d" and w: "isWellFormed cs" by simp_all
    from True have c1: "0xD800 + (unat c - 0xD800) = unat c" by (simp add: is_high_def)
    from d have d1: "0xDC00 + (unat d - 0xDC00) = unat d" by (simp add: is_low_def)
    from pair_value [OF True d] c1 d1
    have "utf16 (0x10000 + (unat c - 0xD800) * 0x400 + (unat d - 0xDC00)) = [c, d]"
      by (simp add: utf16_def)
    with True d w "3.IH"(1) show ?thesis by simp
  next
    case False
    with "3.prems" have l: "\<not> is_low c" and w: "isWellFormed (d # cs)" by simp_all
    from False l w "3.IH"(2) unat16 [of c] show ?thesis by (simp add: utf16_def)
  qed
qed

lemma toString_from_string: "isWellFormed s \<Longrightarrow> toString (from_string s) = s"
proof -
  assume w: "isWellFormed s"
  have s: "\<forall>n \<in> set (scalars s). scalar n" by (simp add: scalars_scalar)
  then have "\<forall>b \<in> set (concat (map utf8 (scalars s))). b < 256"
    by (auto simp: scalar_def intro: utf8_bytes)
  then have "map unat (from_string s) = concat (map utf8 (scalars s))"
    unfolding from_string_def by (rule unat_bytes)
  with s w show ?thesis
    by (simp add: toString_def decode_concat utf16_scalars)
qed

lemma lone_surrogate_bytes: "from_string [0xD800] = [0xEF, 0xBF, 0xBD]"
  by (simp add: from_string_def utf8_def is_high_def is_low_def)

lemma replacement_decoded: "toString [0xEF, 0xBF, 0xBD] = [0xFFFD]"
  by (simp add: toString_def utf16_def)

lemma sodium0_opens:
  "crypto_secretbox_open_easy sodium0 (crypto_secretbox_easy sodium0 m n k) n k = Some m"
  by (simp add: sodium0_def o_def xor.assoc)

lemma decrypt_encrypt_bytes:
  assumes "\<forall>m n k. length n = crypto_secretbox_NONCEBYTES \<and> length k = crypto_secretbox_KEYBYTES \<longrightarrow>
             crypto_secretbox_open_easy S (crypto_secretbox_easy S m n k) n k = Some m"
  shows "decrypt S (ciphertext (fst (encrypt S rnd d))) (nonce (fst (encrypt S rnd d)))
           (key (fst (encrypt S rnd d))) = Inr (toString (from_string d))"
proof -
  define k where "k = map rnd [0..<crypto_secretbox_KEYBYTES]"
  define n where "n = map (\<lambda>i. rnd (i + crypto_secretbox_KEYBYTES)) [0..<crypto_secretbox_NONCEBYTES]"
  have e: "fst (encrypt S rnd d) =
      \<lparr>ciphertext = toString_hex (crypto_secretbox_easy S (from_string d) n k),
       nonce = toString_hex n, key = toString_hex k\<rparr>"
    by (simp add: encrypt_def randombytes_buf_def k_def n_def)
  have "length n = crypto_secretbox_NONCEBYTES" "length k = crypto_secretbox_KEYBYTES"
    by (simp_all add: k_def n_def)
  with assms have "crypto_secretbox_open_easy S (crypto_secretbox_easy S (from_string d) n k) n k
      = Some (from_string d)"
    by blast
  then show ?thesis
    by (simp add: e decrypt_def Buffer_from_hex_toString_hex)
qed

text \<open>
  C10, as stated, fails: for the string made of the lone surrogate U+D800, \<open>decrypt\<close> of
  what \<open>encrypt\<close> returns is the string U+FFFD, not the input.
\<close>

theorem decrypt_encrypt_counterexample:
  "decrypt sodium0 (ciphertext (fst (encrypt sodium0 entropy0 [0xD800])))
     (nonce (fst (encrypt sodium0 entropy0 [0xD800])))
     (key (fst (encrypt sodium0 entropy0 [0xD800]))) = Inr [0xFFFD] \<and>
   decrypt sodium0 (ciphertext (fst (encrypt sodium0 entropy0 [0xD800])))
     (nonce (fst (encrypt sodium0 entropy0 [0xD800])))
     (key (fst (encrypt sodium0 entropy0 [0xD800]))) \<noteq> Inr [0xD800]"
  using decrypt_encrypt_bytes [of sodium0 entropy0 "[0xD800]"]
  by (simp add: sodium0_opens lone_surrogate_bytes replacement_decoded)

text \<open>
  C10, amended. For every well-formed input string \<open>d\<close> (no surrogate outside a pair),
  provided the secret box of the library opens what it sealed under the same nonce and
  key (of the lengths the library prescribes), \<open>decrypt\<close> applied to the ciphertext,
  nonce and key that \<open>encrypt\<close> returns for \<open>d\<close> gives back \<open>d\<close>, whatever the random
  generator yields.
\<close>

theorem decrypt_encrypt:
  assumes "\<forall>m n k. length n = crypto_secretbox_NONCEBYTES \<and> length k = crypto_secretbox_KEYBYTES \<longrightarrow>
             crypto_secretbox_open_easy S (crypto_secretbox_easy S m n k) n k = Some m"
    and "isWellFormed d"
  shows "decrypt S (ciphertext (fst (encrypt S rnd d))) (nonce (fst (encrypt S rnd d)))
           (key (fst (encrypt S rnd d))) = Inr d"
  using decrypt_encrypt_bytes [OF assms(1), of rnd d] toString_from_string [OF assms(2)]
  by simp

theorem decrypt_encrypt_witness:
  "isWellFormed [0xD83D, 0xDE00, 0x68, 0xE9] \<and>
   decrypt sodium0 (ciphertext (fst (encrypt sodium0 entropy0 [0xD83D, 0xDE00, 0x68, 0xE9])))
     (nonce (fst (encrypt sodium0 entropy0 [0xD83D, 0xDE00, 0x68, 0xE9])))
     (key (fst (encrypt sodium0 entropy0 [0xD83D, 0xDE00, 0x68, 0xE9])))
   = Inr [0xD83D, 0xDE00, 0x68, 0xE9]"
proof -
  have c: "\<forall>m n k. length n = crypto_secretbox_NONCEBYTES \<and> length k = crypto_secretbox_KEYBYTES \<longrightarrow>
       crypto_secretbox_open_easy sodium0 (crypto_secretbox_easy sodium0 m n k) n k = Some m"
    by (simp add: sodium0_opens)
  have w: "isWellFormed [0xD83D, 0xDE00, 0x68, 0xE9]"
    by (simp add: is_high_def is_low_def)
  from decrypt_encrypt [OF c w, of entropy0] w show ?thesis by simp
qed

end
